theory Spec2Isabelle
  imports Main "HOL-Library.Multiset"
begin

section \<open>Data model (src/types: Task, Plan)\<close>

text \<open>
  The TypeScript interfaces \<^verbatim>\<open>Task\<close> and \<^verbatim>\<open>Plan\<close> as records. The string-literal
  unions of \<^verbatim>\<open>status\<close> and \<^verbatim>\<open>priority\<close> are datatypes. Both interfaces have fields
  called \<^verbatim>\<open>id\<close>, \<^verbatim>\<open>title\<close>, \<^verbatim>\<open>description\<close> and \<^verbatim>\<open>status\<close>; the record fields carry
  the prefix \<open>task_\<close> or \<open>plan_\<close> to keep them apart. The optional \<^verbatim>\<open>code?: string\<close>
  is an option.
\<close>

datatype TaskStatus = Pending | InProgress | Completed | Failed

datatype Priority = Low | Medium | High

datatype PlanStatus = Draft | Approved | Executing | PlanCompleted | PlanFailed

text \<open>
  A \<^verbatim>\<open>Date\<close> is carried by the text \<^verbatim>\<open>toISOString()\<close> gives for it, the only view of
  a date the plan service takes (through \<^verbatim>\<open>JSON.stringify\<close>); \<open>InvalidDate\<close> is the
  date whose time value is NaN.
\<close>

datatype Date = Date string | InvalidDate

record Task =
  task_id :: string
  task_title :: string
  task_description :: string
  files :: "string list"
  dependencies :: "string list"
  task_status :: TaskStatus
  estimatedTime :: string
  priority :: Priority
  code :: "string option"

record Plan =
  plan_id :: string
  plan_title :: string
  plan_description :: string
  tasks :: "Task list"
  created :: Date
  updated :: Date
  plan_status :: PlanStatus

definition status_text :: "TaskStatus \<Rightarrow> string" where
  "status_text s =
     (case s of Pending \<Rightarrow> ''pending'' | InProgress \<Rightarrow> ''in-progress''
              | Completed \<Rightarrow> ''completed'' | Failed \<Rightarrow> ''failed'')"

definition priority_text :: "Priority \<Rightarrow> string" where
  "priority_text p = (case p of Low \<Rightarrow> ''low'' | Medium \<Rightarrow> ''medium'' | High \<Rightarrow> ''high'')"

definition plan_status_text :: "PlanStatus \<Rightarrow> string" where
  "plan_status_text s =
     (case s of Draft \<Rightarrow> ''draft'' | Approved \<Rightarrow> ''approved'' | Executing \<Rightarrow> ''executing''
              | PlanCompleted \<Rightarrow> ''completed'' | PlanFailed \<Rightarrow> ''failed'')"

section \<open>Untyped values at the boundary\<close>

text \<open>
  What \<^verbatim>\<open>JSON.parse\<close> returns has the TypeScript type \<^verbatim>\<open>any\<close>: a JSON value. A number
  \<open>JNum m e\<close> is \<open>m\<close> times ten to the power \<open>e\<close>; the plan service asks of a number only
  whether it is zero and whether it is the same as another. An object is the list of its own properties, each key once.
\<close>

datatype json =
    JNull
  | JBool bool
  | JNum int int
  | JStr string
  | JArr "json list"
  | JObj "(string \<times> json) list"

text \<open>JavaScript's truthiness (\<^verbatim>\<open>!x\<close>, \<^verbatim>\<open>x || y\<close>, \<^verbatim>\<open>x ? y : z\<close>) on JSON values.\<close>

fun truthy :: "json \<Rightarrow> bool" where
  "truthy JNull = False"
| "truthy (JBool b) = b"
| "truthy (JNum m e) = (m \<noteq> 0)"
| "truthy (JStr s) = (s \<noteq> [])"
| "truthy (JArr xs) = True"
| "truthy (JObj kvs) = True"

text \<open>
  \<^verbatim>\<open>value.key\<close> for a value that is not \<^verbatim>\<open>null\<close> (on \<^verbatim>\<open>null\<close> the access throws, which
  the callers below test first). \<open>None\<close> is \<^verbatim>\<open>undefined\<close>. The keys the plan service
  reads (\<^verbatim>\<open>id\<close>, \<^verbatim>\<open>title\<close>, \<^verbatim>\<open>description\<close>, \<^verbatim>\<open>tasks\<close>, \<^verbatim>\<open>files\<close>, \<^verbatim>\<open>dependencies\<close>,
  \<^verbatim>\<open>estimatedTime\<close>, \<^verbatim>\<open>priority\<close>, \<^verbatim>\<open>created\<close>, \<^verbatim>\<open>status\<close>) are properties of no
  prototype, so a boolean, number, string or array has none of them.
\<close>

fun get_prop :: "json \<Rightarrow> string \<Rightarrow> json option" where
  "get_prop (JObj kvs) k = map_of kvs k"
| "get_prop _ k = None"

text \<open>\<^verbatim>\<open>v || d\<close> where \<open>v\<close> may be \<^verbatim>\<open>undefined\<close>.\<close>

definition or_else :: "json option \<Rightarrow> json \<Rightarrow> json" where
  "or_else v d = (case v of Some j \<Rightarrow> if truthy j then j else d | None \<Rightarrow> d)"

text \<open>
  \<^verbatim>\<open>v || d\<close> read at the type \<^verbatim>\<open>string\<close> its field declares: the default when \<open>v\<close> is
  falsy, the string when it is one, and \<open>None\<close> when \<open>v\<close> is truthy and no string (a
  number, \<^verbatim>\<open>true\<close>, an array, an object), which JavaScript stores as it is.
\<close>

definition string_or :: "json option \<Rightarrow> string \<Rightarrow> string option" where
  "string_or v d =
     (case v of
        None \<Rightarrow> Some d
      | Some (JStr s) \<Rightarrow> Some (if s = [] then d else s)
      | Some j \<Rightarrow> if truthy j then None else Some d)"

definition strings_of :: "json list \<Rightarrow> string list option" where
  "strings_of xs =
     (if list_all (\<lambda>x. case x of JStr s \<Rightarrow> True | _ \<Rightarrow> False) xs
      then Some (map (\<lambda>x. case x of JStr s \<Rightarrow> s | _ \<Rightarrow> []) xs) else None)"

text \<open>\<^verbatim>\<open>Array.isArray(v) ? v : []\<close> read at the type \<^verbatim>\<open>string[]\<close>.\<close>

definition array_or_empty :: "json option \<Rightarrow> string list option" where
  "array_or_empty v = (case v of Some (JArr xs) \<Rightarrow> strings_of xs | _ \<Rightarrow> Some [])"

text \<open>\<^verbatim>\<open>['low', 'medium', 'high'].includes(v) ? v : 'medium'\<close>.\<close>

definition priority_or_medium :: "json option \<Rightarrow> Priority" where
  "priority_or_medium v =
     (if v = Some (JStr ''low'') then Low
      else if v = Some (JStr ''high'') then High
      else Medium)"

text \<open>
  How a call ends. \<open>Throws\<close> is an exception that leaves the function. \<open>Untyped\<close> is a
  run in which the JavaScript stores a value outside the declared type of its field (a
  task id that is a number, a dependency that is an object): TypeScript's types
  are erased at run time, nothing checks the value, and what is returned is no
  \<^verbatim>\<open>Plan\<close>. A function read at its declared type ends that way on such a run; what it
  stores then is said by the functions on stored values below (\<open>parsePlanResponse\<close>,
  \<open>modifyTask_object\<close>).
\<close>

datatype error = SyntaxError | TypeError | Error string

datatype 'a outcome = Returns 'a | Throws error | Untyped

section \<open>The host\<close>

text \<open>
  What the plan service takes from its JavaScript host, as a record handed to every
  operation that uses it (the host at the time of the call):
  \<^item> \<open>JSON_parse\<close> is \<^verbatim>\<open>JSON.parse\<close>, \<open>None\<close> where it throws \<^verbatim>\<open>SyntaxError\<close>;
  \<^item> \<open>Date_new\<close> is \<^verbatim>\<open>new Date(value)\<close>, \<open>None\<close> where it throws;
  \<^item> \<open>now\<close> is \<^verbatim>\<open>new Date()\<close> and \<open>millis\<close> is \<^verbatim>\<open>Date.now()\<close>;
  \<^item> \<open>random36 k\<close> is what \<^verbatim>\<open>Math.random().toString(36).substr(2, 9)\<close> gives at the
    \<open>k\<close>-th place of the call that draws it. An operation that builds a plan draws
    cell \<open>0\<close> for the plan id and cell \<open>i + 1\<close> for the task at index \<open>i\<close>, so
    two draws of one call never share a cell.
\<close>

record host =
  JSON_parse :: "string \<Rightarrow> json option"
  Date_new :: "json \<Rightarrow> Date option"
  now :: Date
  millis :: int
  random36 :: "nat \<Rightarrow> string"

section \<open>Identifier generator (src/utils/helpers.ts)\<close>

function decimal :: "int \<Rightarrow> string" where
  "decimal n =
     (if n < 0 then CHR ''-'' # decimal (- n)
      else if n < 10 then [char_of (48 + n)]
      else decimal (n div 10) @ [char_of (48 + n mod 10)])"
  by pat_completeness auto
termination
  by (relation "measure (\<lambda>n. if n < 0 then nat (- n) + 1 else nat n)") auto

text \<open>\<^verbatim>\<open>`${prefix}-${Date.now()}-${Math.random().toString(36).substr(2, 9)}`\<close>.\<close>

definition generateId :: "host \<Rightarrow> nat \<Rightarrow> string \<Rightarrow> string" where
  "generateId h k prefix = prefix @ ''-'' @ decimal (millis h) @ ''-'' @ random36 h k"

section \<open>Execution scheduler: executable tasks (src/utils/helpers.ts)\<close>

text \<open>
  \<^verbatim>\<open>canExecuteTask\<close>: a task with no dependency can run; otherwise every dependency id
  must find (\<^verbatim>\<open>Array.prototype.find\<close>: the first match) a task whose status is
  \<^verbatim>\<open>'completed'\<close>. \<^verbatim>\<open>dependentTask?.status\<close> of a missing task is \<^verbatim>\<open>undefined\<close>, which
  is not \<^verbatim>\<open>'completed'\<close>.
\<close>

definition canExecuteTask :: "Task \<Rightarrow> Plan \<Rightarrow> bool" where
  "canExecuteTask task plan =
     (if length (dependencies task) = 0 then True
      else list_all
        (\<lambda>depId. case find (\<lambda>t. task_id t = depId) (tasks plan) of
                    None \<Rightarrow> False
                  | Some dependentTask \<Rightarrow> task_status dependentTask = Completed)
        (dependencies task))"

definition getExecutableTasks :: "Plan \<Rightarrow> Task list" where
  "getExecutableTasks plan =
     filter (\<lambda>task. task_status task = Pending \<and> canExecuteTask task plan) (tasks plan)"

text \<open>
  \<^verbatim>\<open>PlanService.getExecutableTaskIds\<close> (planService.ts): the same selection through the
  set of the ids of the completed tasks, returning ids.
\<close>

definition getExecutableTaskIds :: "Plan \<Rightarrow> string list" where
  "getExecutableTaskIds plan =
     (let pendingTasks = filter (\<lambda>task. task_status task = Pending) (tasks plan);
          completedTaskIds =
            set (map task_id (filter (\<lambda>task. task_status task = Completed) (tasks plan)))
      in map task_id
           (filter (\<lambda>task. list_all (\<lambda>depId. depId \<in> completedTaskIds) (dependencies task))
              pendingTasks))"

section \<open>Task graph validator: detectCircularDependencies (planService.ts)\<close>

text \<open>
  The closure \<^verbatim>\<open>hasCycle\<close> updates two sets and a list of the enclosing function; they
  are the state \<open>dfs\<close>, passed in and returned. The recursion of \<^verbatim>\<open>hasCycle\<close> is bounded
  by fuel: \<open>None\<close> is "the fuel ran out", and \<open>detectCircularDependencies_total\<close> below
  shows that the fuel \<open>detectCircularDependencies\<close> gives never runs out.
\<close>

record dfs =
  visited :: "string set"
  recursionStack :: "string set"
  circularDeps :: "string list"

text \<open>
  The loop \<^verbatim>\<open>for (const depId of task.dependencies)\<close> in the body of
  \<^verbatim>\<open>hasCycle(taskId)\<close>, over the recursive call \<open>hc\<close>: the first dependency whose call
  returns \<^verbatim>\<open>true\<close> pushes \<^verbatim>\<open>`${taskId} -> ${depId}`\<close> and returns \<^verbatim>\<open>true\<close> at once, leaving
  \<open>taskId\<close> on the recursion stack.
\<close>

fun deps_loop ::
  "(string \<Rightarrow> dfs \<Rightarrow> (bool \<times> dfs) option) \<Rightarrow> string \<Rightarrow> string list \<Rightarrow> dfs
     \<Rightarrow> (bool \<times> dfs) option"
where
  "deps_loop hc taskId [] st = Some (False, st)"
| "deps_loop hc taskId (depId # rest) st =
     (case hc depId st of
        None \<Rightarrow> None
      | Some (True, st') \<Rightarrow>
          Some (True, st'\<lparr>circularDeps := circularDeps st' @ [taskId @ '' -> '' @ depId]\<rparr>)
      | Some (False, st') \<Rightarrow> deps_loop hc taskId rest st')"

primrec hasCycle :: "nat \<Rightarrow> Task list \<Rightarrow> string \<Rightarrow> dfs \<Rightarrow> (bool \<times> dfs) option" where
  "hasCycle 0 ts taskId st = None"
| "hasCycle (Suc n) ts taskId st =
     (if taskId \<in> recursionStack st then Some (True, st)
      else if taskId \<in> visited st then Some (False, st)
      else
        let st1 = st\<lparr>visited := insert taskId (visited st),
                      recursionStack := insert taskId (recursionStack st)\<rparr>
        in case find (\<lambda>t. task_id t = taskId) ts of
             None \<Rightarrow> Some (False, st1\<lparr>recursionStack := recursionStack st1 - {taskId}\<rparr>)
           | Some task \<Rightarrow>
               (case deps_loop (hasCycle n ts) taskId (dependencies task) st1 of
                  None \<Rightarrow> None
                | Some (True, st2) \<Rightarrow> Some (True, st2)
                | Some (False, st2) \<Rightarrow>
                    Some (False, st2\<lparr>recursionStack := recursionStack st2 - {taskId}\<rparr>)))"

text \<open>\<^verbatim>\<open>tasks.forEach(task => { if (!visited.has(task.id)) hasCycle(task.id) })\<close>.\<close>

fun detect_roots :: "nat \<Rightarrow> Task list \<Rightarrow> Task list \<Rightarrow> dfs \<Rightarrow> dfs option" where
  "detect_roots n ts [] st = Some st"
| "detect_roots n ts (task # rest) st =
     (if task_id task \<in> visited st then detect_roots n ts rest st
      else case hasCycle n ts (task_id task) st of
             None \<Rightarrow> None
           | Some (_, st') \<Rightarrow> detect_roots n ts rest st')"

text \<open>Every string a traversal can meet: the ids of the tasks and their dependencies.\<close>

definition nodes :: "Task list \<Rightarrow> string list" where
  "nodes ts = map task_id ts @ concat (map dependencies ts)"

definition detectCircularDependencies :: "Task list \<Rightarrow> string list option" where
  "detectCircularDependencies ts =
     map_option circularDeps
       (detect_roots (Suc (length (nodes ts))) ts ts
          \<lparr>visited = {}, recursionStack = {}, circularDeps = []\<rparr>)"

section \<open>Execution scheduler: topologicalSort (TracerLite)\<close>

text \<open>
  The closure \<^verbatim>\<open>visit\<close> updates \<^verbatim>\<open>visited\<close>, \<^verbatim>\<open>visiting\<close> and \<^verbatim>\<open>result\<close>; they are the
  state \<open>topo\<close> (the field \<open>tvisited\<close> is the set \<^verbatim>\<open>visited\<close>, named apart from the one
  of \<open>dfs\<close>). \<^verbatim>\<open>new Map(tasks.map(task => [task.id, task]))\<close> keeps, for an id that
  several tasks share, the last of them. A \<^verbatim>\<open>taskId\<close> with no task stays in
  \<^verbatim>\<open>visiting\<close>: the source deletes it only inside \<^verbatim>\<open>if (task)\<close>.
\<close>

record topo =
  tvisited :: "string set"
  visiting :: "string set"
  result :: "Task list"

definition taskMap :: "Task list \<Rightarrow> string \<Rightarrow> Task option" where
  "taskMap ts = map_of (rev (map (\<lambda>task. (task_id task, task)) ts))"

text \<open>\<^verbatim>\<open>xs.forEach(x => f(x))\<close> over a state, \<open>None\<close> when a call runs out of fuel.\<close>

fun forEach :: "('a \<Rightarrow> 's \<Rightarrow> 's option) \<Rightarrow> 'a list \<Rightarrow> 's \<Rightarrow> 's option" where
  "forEach f [] st = Some st"
| "forEach f (x # xs) st = (case f x st of None \<Rightarrow> None | Some st' \<Rightarrow> forEach f xs st')"

primrec visit :: "nat \<Rightarrow> Task list \<Rightarrow> string \<Rightarrow> topo \<Rightarrow> topo option" where
  "visit 0 ts taskId st = None"
| "visit (Suc n) ts taskId st =
     (if taskId \<in> visiting st then Some st
      else if taskId \<in> tvisited st then Some st
      else
        let st1 = st\<lparr>visiting := insert taskId (visiting st)\<rparr>
        in case taskMap ts taskId of
             None \<Rightarrow> Some st1
           | Some task \<Rightarrow>
               (case forEach (visit n ts) (dependencies task) st1 of
                  None \<Rightarrow> None
                | Some st2 \<Rightarrow>
                    Some (st2\<lparr>visiting := visiting st2 - {taskId},
                              tvisited := insert taskId (tvisited st2),
                              result := result st2 @ [task]\<rparr>)))"

definition topologicalSort :: "Task list \<Rightarrow> Task list option" where
  "topologicalSort ts =
     map_option result
       (forEach (visit (Suc (length (nodes ts))) ts) (map task_id ts)
          \<lparr>tvisited = {}, visiting = {}, result = []\<rparr>)"

text \<open>
  The dependency graph of a task list: an edge from a task's id to each entry of its
  \<^verbatim>\<open>dependencies\<close>.
\<close>

definition dep_edges :: "Task list \<Rightarrow> (string \<times> string) set" where
  "dep_edges ts = set (concat (map (\<lambda>t. map (\<lambda>d. (task_id t, d)) (dependencies t)) ts))"

section \<open>Invariants of the two traversals\<close>



text \<open>
  For \<^verbatim>\<open>topologicalSort\<close>: \<^verbatim>\<open>visited\<close> holds the ids of \<^verbatim>\<open>result\<close>, no id twice, every
  entry a task of the input, and nothing is both visited and being visited. A call of
  \<^verbatim>\<open>visit\<close> keeps that, only adds to \<^verbatim>\<open>visited\<close>, and leaves in \<^verbatim>\<open>visiting\<close> what was
  there plus ids that belong to no task.
\<close>

definition topo_inv :: "Task list \<Rightarrow> topo \<Rightarrow> bool" where
  "topo_inv ts st \<longleftrightarrow>
     tvisited st = task_id ` set (result st) \<and> distinct (map task_id (result st)) \<and>
     set (result st) \<subseteq> set ts \<and> visiting st \<inter> tvisited st = {}"

definition topo_step :: "Task list \<Rightarrow> topo \<Rightarrow> topo \<Rightarrow> bool" where
  "topo_step ts st st' \<longleftrightarrow>
     topo_inv ts st' \<and> visiting st \<subseteq> visiting st' \<and>
     visiting st' \<inter> task_id ` set ts \<subseteq> visiting st \<and> tvisited st \<subseteq> tvisited st'"

text \<open>
  In the list \<open>r\<close>, every dependency that is the id of a task of \<open>ts\<close> is the id of an
  earlier entry.
\<close>

definition deps_first :: "Task list \<Rightarrow> Task list \<Rightarrow> bool" where
  "deps_first ts r =
     (\<forall>i < length r. \<forall>d \<in> set (dependencies (r ! i)).
        d \<in> task_id ` set ts \<longrightarrow> d \<in> task_id ` set (take i r))"


section \<open>Plan builder (planService.ts, helpers.ts)\<close>

text \<open>
  \<^verbatim>\<open>response.match\<close> with the regular expression "an opening brace, any characters,
  a closing brace": the leftmost match starts at the first opening brace, and the greedy
  star ends it at the last closing brace after that; with no closing brace behind the
  first opening one there is no match at all.
\<close>

definition brace_match :: "string \<Rightarrow> string option" where
  "brace_match response =
     (let from_open = dropWhile (\<lambda>c. c \<noteq> CHR ''{'') response;
          to_close = rev (dropWhile (\<lambda>c. c \<noteq> CHR ''}'') (rev from_open))
      in if to_close = [] then None else Some to_close)"

text \<open>
  \<^verbatim>\<open>extractJsonFromResponse\<close>: the \<^verbatim>\<open>catch\<close> returns \<^verbatim>\<open>null\<close>, which is also what
  parsing the text \<^verbatim>\<open>null\<close> gives.
\<close>

definition extractJsonFromResponse :: "host \<Rightarrow> string \<Rightarrow> json" where
  "extractJsonFromResponse h response =
     (case (case brace_match response of
              Some jsonMatch \<Rightarrow> JSON_parse h jsonMatch
            | None \<Rightarrow> JSON_parse h response) of
        Some v \<Rightarrow> v
      | None \<Rightarrow> JNull)"

definition createFallbackPlan :: "host \<Rightarrow> string \<Rightarrow> Plan" where
  "createFallbackPlan h requirements =
     \<lparr>plan_id = generateId h 0 ''plan'',
      plan_title = ''Manual Implementation Plan'',
      plan_description = requirements,
      tasks = [\<lparr>task_id = generateId h 1 ''task'',
                task_title = ''Implement requirements'',
                task_description = requirements,
                files = [], dependencies = [], task_status = Pending,
                estimatedTime = ''60 minutes'', priority = High, code = None\<rparr>],
      created = now h, updated = now h, plan_status = Draft\<rparr>"

text \<open>
  What \<^verbatim>\<open>processTasks\<close> and \<^verbatim>\<open>parsePlanResponse\<close> store, whatever the model's answer holds.
  TypeScript's types are erased at run time: the id of a task, the entries of \<^verbatim>\<open>files\<close>
  and \<^verbatim>\<open>dependencies\<close>, and the title and the description of the plan are stored as the
  JSON values they are. The title, the description and the estimated time of a task
  are strings in every task that is returned (\<^verbatim>\<open>validateTask\<close> throws on any other value),
  and its priority is one of the three. \<open>built\<close> is a \<^verbatim>\<open>Plan\<close> as such a value.
\<close>

record BuiltTask =
  built_id :: json
  built_title :: string
  built_description :: string
  built_files :: "json list"
  built_dependencies :: "json list"
  built_status :: TaskStatus
  built_estimatedTime :: string
  built_priority :: Priority

record BuiltPlan =
  built_plan_id :: string
  built_plan_title :: json
  built_plan_description :: json
  built_tasks :: "BuiltTask list"
  built_created :: Date
  built_updated :: Date
  built_plan_status :: PlanStatus

definition built_task :: "Task \<Rightarrow> BuiltTask" where
  "built_task t =
     \<lparr>built_id = JStr (task_id t), built_title = task_title t,
      built_description = task_description t, built_files = map JStr (files t),
      built_dependencies = map JStr (dependencies t), built_status = task_status t,
      built_estimatedTime = estimatedTime t, built_priority = priority t\<rparr>"

definition built :: "Plan \<Rightarrow> BuiltPlan" where
  "built plan =
     \<lparr>built_plan_id = plan_id plan, built_plan_title = JStr (plan_title plan),
      built_plan_description = JStr (plan_description plan),
      built_tasks = map built_task (tasks plan),
      built_created = created plan, built_updated = updated plan,
      built_plan_status = plan_status plan\<rparr>"

text \<open>
  One step of the \<^verbatim>\<open>map\<close> in \<^verbatim>\<open>processTasks\<close>, for the entry \<open>taskData\<close> at \<open>index\<close>.
  \<^item> \<^verbatim>\<open>taskData.id\<close> on \<^verbatim>\<open>null\<close> throws \<^verbatim>\<open>TypeError\<close>.
  \<^item> The title, the description and the estimated time are truthy (a falsy one is
    replaced by its default, which is not empty), so \<^verbatim>\<open>validateTask\<close> calls \<^verbatim>\<open>.trim()\<close> on
    each of them; on a value that is no string that call throws \<^verbatim>\<open>TypeError\<close>. What
    \<^verbatim>\<open>validateTask\<close> finds is logged and changes nothing else: the logger prints its
    message and, at most, \<^verbatim>\<open>JSON.stringify\<close> of the context, which throws on no JSON
    value.
  \<^item> The id and the entries of \<^verbatim>\<open>files\<close> and \<^verbatim>\<open>dependencies\<close> are stored unchecked
    (\<^verbatim>\<open>Array.isArray(v) ? v : []\<close> is \<open>array_or_none\<close>).
  \<^item> The status is the constant \<^verbatim>\<open>'pending'\<close>; no \<^verbatim>\<open>code\<close> is copied.
\<close>

definition array_or_none :: "json option \<Rightarrow> json list" where
  "array_or_none v = (case v of Some (JArr xs) \<Rightarrow> xs | _ \<Rightarrow> [])"

definition processTask_any :: "host \<Rightarrow> nat \<Rightarrow> json \<Rightarrow> error + BuiltTask" where
  "processTask_any h index taskData =
     (if taskData = JNull then Inl TypeError
      else
        (case (or_else (get_prop taskData ''title'') (JStr (''Task '' @ decimal (int index + 1))),
               or_else (get_prop taskData ''description'') (JStr ''No description provided''),
               or_else (get_prop taskData ''estimatedTime'') (JStr ''30 minutes'')) of
           (JStr title, JStr description, JStr time) \<Rightarrow>
             Inr \<lparr>built_id = or_else (get_prop taskData ''id'')
                                (JStr (generateId h (Suc index) ''task'')),
                  built_title = title, built_description = description,
                  built_files = array_or_none (get_prop taskData ''files''),
                  built_dependencies = array_or_none (get_prop taskData ''dependencies''),
                  built_status = Pending, built_estimatedTime = time,
                  built_priority = priority_or_medium (get_prop taskData ''priority'')\<rparr>
         | _ \<Rightarrow> Inl TypeError))"

text \<open>
  The \<^verbatim>\<open>map\<close> over the entries. An exception of any entry leaves \<^verbatim>\<open>processTasks\<close>,
  whatever the other entries hold.
\<close>

fun processTasks_from_any :: "host \<Rightarrow> nat \<Rightarrow> json list \<Rightarrow> error + BuiltTask list" where
  "processTasks_from_any h index [] = Inr []"
| "processTasks_from_any h index (taskData # rest) =
     (case processTask_any h index taskData of
        Inl e \<Rightarrow> Inl e
      | Inr task \<Rightarrow>
          (case processTasks_from_any h (Suc index) rest of
             Inl e \<Rightarrow> Inl e
           | Inr ts \<Rightarrow> Inr (task # ts)))"

text \<open>\<^verbatim>\<open>tasksData.map\<close> is a function only on an array.\<close>

definition processTasks_any :: "host \<Rightarrow> json \<Rightarrow> error + BuiltTask list" where
  "processTasks_any h tasksData =
     (case tasksData of JArr xs \<Rightarrow> processTasks_from_any h 0 xs | _ \<Rightarrow> Inl TypeError)"

text \<open>
  \<^verbatim>\<open>processTasks\<close> read at its declared type \<^verbatim>\<open>Task[]\<close>, as \<^verbatim>\<open>importPlan\<close> below uses it: the
  exceptions are the same, and a run that stores a value outside the type of its field
  is \<open>Untyped\<close>. \<open>typed_task\<close> reads a stored task at the type \<^verbatim>\<open>Task\<close>; the lemma
  \<open>processTasks_reads_any\<close> below shows that \<open>processTasks\<close> is \<open>processTasks_any\<close> read
  that way.
\<close>

definition processTask :: "host \<Rightarrow> nat \<Rightarrow> json \<Rightarrow> Task outcome" where
  "processTask h index taskData =
     (if taskData = JNull then Throws TypeError
      else
        (case (string_or (get_prop taskData ''title'') (''Task '' @ decimal (int index + 1)),
               string_or (get_prop taskData ''description'') ''No description provided'',
               string_or (get_prop taskData ''estimatedTime'') ''30 minutes'') of
           (Some title, Some description, Some time) \<Rightarrow>
             (case (string_or (get_prop taskData ''id'') (generateId h (Suc index) ''task''),
                    array_or_empty (get_prop taskData ''files''),
                    array_or_empty (get_prop taskData ''dependencies'')) of
                (Some tid, Some fs, Some ds) \<Rightarrow>
                  Returns \<lparr>task_id = tid, task_title = title, task_description = description,
                           files = fs, dependencies = ds, task_status = Pending,
                           estimatedTime = time,
                           priority = priority_or_medium (get_prop taskData ''priority''),
                           code = None\<rparr>
              | _ \<Rightarrow> Untyped)
         | _ \<Rightarrow> Throws TypeError))"

text \<open>
  The \<^verbatim>\<open>map\<close> over the entries. An exception of any entry leaves \<^verbatim>\<open>processTasks\<close>,
  whatever the other entries hold.
\<close>

fun processTasks_from :: "host \<Rightarrow> nat \<Rightarrow> json list \<Rightarrow> Task list outcome" where
  "processTasks_from h index [] = Returns []"
| "processTasks_from h index (taskData # rest) =
     (case processTask h index taskData of
        Throws e \<Rightarrow> Throws e
      | Untyped \<Rightarrow>
          (case processTasks_from h (Suc index) rest of Throws e \<Rightarrow> Throws e | _ \<Rightarrow> Untyped)
      | Returns task \<Rightarrow>
          (case processTasks_from h (Suc index) rest of
             Returns ts \<Rightarrow> Returns (task # ts)
           | Throws e \<Rightarrow> Throws e
           | Untyped \<Rightarrow> Untyped))"

text \<open>\<^verbatim>\<open>tasksData.map\<close> is a function only on an array.\<close>

definition processTasks :: "host \<Rightarrow> json \<Rightarrow> Task list outcome" where
  "processTasks h tasksData =
     (case tasksData of JArr xs \<Rightarrow> processTasks_from h 0 xs | _ \<Rightarrow> Throws TypeError)"

definition typed_task :: "BuiltTask \<Rightarrow> Task option" where
  "typed_task b =
     (case (built_id b, strings_of (built_files b), strings_of (built_dependencies b)) of
        (JStr i, Some fs, Some ds) \<Rightarrow>
          Some \<lparr>task_id = i, task_title = built_title b,
                task_description = built_description b, files = fs, dependencies = ds,
                task_status = built_status b, estimatedTime = built_estimatedTime b,
                priority = built_priority b, code = None\<rparr>
      | _ \<Rightarrow> None)"

fun typed_tasks :: "BuiltTask list \<Rightarrow> Task list option" where
  "typed_tasks [] = Some []"
| "typed_tasks (b # bs) =
     (case typed_task b of
        None \<Rightarrow> None
      | Some t \<Rightarrow> (case typed_tasks bs of None \<Rightarrow> None | Some ts \<Rightarrow> Some (t # ts)))"

section \<open>Task graph validator on stored values: validatePlan (planService.ts)\<close>

text \<open>
  \<^verbatim>\<open>validatePlan\<close> runs on the plan \<^verbatim>\<open>parsePlanResponse\<close> has just built, whose ids and
  dependencies are any JSON values. The sets \<^verbatim>\<open>visited\<close>, \<^verbatim>\<open>recursionStack\<close> and \<^verbatim>\<open>taskIds\<close>
  and the test \<^verbatim>\<open>t.id === taskId\<close> compare two strings, numbers or booleans (or \<^verbatim>\<open>null\<close>)
  by value, and two arrays or objects by identity. Every array or object of a parsed
  answer is an object of its own, so an array or object is identified by its place:
  \<open>Place k 0\<close> is the id of the task at index \<open>k\<close>, \<open>Place k (Suc j)\<close> its dependency at
  index \<open>j\<close>. The host gives equal numbers as equal values.
\<close>

datatype ident = Prim json | Place nat nat

definition ident_at :: "nat \<Rightarrow> nat \<Rightarrow> json \<Rightarrow> ident" where
  "ident_at k j v = (case v of JArr xs \<Rightarrow> Place k j | JObj kvs \<Rightarrow> Place k j | _ \<Rightarrow> Prim v)"

text \<open>
  Where the conversion to a string in a template literal throws \<^verbatim>\<open>TypeError\<close>: on an
  object with a property \<^verbatim>\<open>toString\<close> of its own (a JSON value is no function, and then
  neither \<^verbatim>\<open>toString\<close> nor \<^verbatim>\<open>valueOf\<close> gives a primitive), and on an array with such an
  element (\<^verbatim>\<open>join\<close> converts each element but \<^verbatim>\<open>null\<close>). Every other JSON value has a
  text.
\<close>

fun text_throws :: "json \<Rightarrow> bool" where
  "text_throws (JObj kvs) = (''toString'' \<in> set (map fst kvs))"
| "text_throws (JArr xs) = list_ex (\<lambda>x. x \<noteq> JNull \<and> text_throws x) xs"
| "text_throws _ = False"

text \<open>
  The tasks as the traversal sees them: the id of each task and its dependencies, each
  value with its identity.
\<close>

definition placed_tasks :: "BuiltTask list \<Rightarrow> ((ident \<times> json) \<times> (ident \<times> json) list) list" where
  "placed_tasks ts =
     map (\<lambda>(k, t). ((ident_at k 0 (built_id t), built_id t),
                    map (\<lambda>(j, v). (ident_at k (Suc j) v, v))
                      (enumerate 0 (built_dependencies t))))
       (enumerate 0 ts)"

text \<open>
  \<^verbatim>\<open>detectCircularDependencies\<close> on these values: the closure \<^verbatim>\<open>hasCycle\<close> as in
  \<open>hasCycle\<close> above, with the identities in the two sets. Building the text
  \<^verbatim>\<open>`${taskId} -> ${depId}`\<close> throws where one of the two values has no text;
  \<open>reports\<close> counts the texts pushed.
\<close>

record walk =
  seen :: "ident set"
  onStack :: "ident set"
  reports :: nat

fun deps_loop_any ::
  "(ident \<times> json \<Rightarrow> walk \<Rightarrow> (error + bool \<times> walk) option) \<Rightarrow> ident \<times> json
     \<Rightarrow> (ident \<times> json) list \<Rightarrow> walk \<Rightarrow> (error + bool \<times> walk) option"
where
  "deps_loop_any hc taskId [] st = Some (Inr (False, st))"
| "deps_loop_any hc taskId (depId # rest) st =
     (case hc depId st of
        None \<Rightarrow> None
      | Some (Inl e) \<Rightarrow> Some (Inl e)
      | Some (Inr (True, st')) \<Rightarrow>
          (if text_throws (snd taskId) \<or> text_throws (snd depId) then Some (Inl TypeError)
           else Some (Inr (True, st'\<lparr>reports := Suc (reports st')\<rparr>)))
      | Some (Inr (False, st')) \<Rightarrow> deps_loop_any hc taskId rest st')"

primrec hasCycle_any ::
  "nat \<Rightarrow> ((ident \<times> json) \<times> (ident \<times> json) list) list \<Rightarrow> ident \<times> json \<Rightarrow> walk
     \<Rightarrow> (error + bool \<times> walk) option"
where
  "hasCycle_any 0 g taskId st = None"
| "hasCycle_any (Suc n) g taskId st =
     (if fst taskId \<in> onStack st then Some (Inr (True, st))
      else if fst taskId \<in> seen st then Some (Inr (False, st))
      else
        let st1 = st\<lparr>seen := insert (fst taskId) (seen st),
                      onStack := insert (fst taskId) (onStack st)\<rparr>
        in case find (\<lambda>task. fst (fst task) = fst taskId) g of
             None \<Rightarrow> Some (Inr (False, st1\<lparr>onStack := onStack st1 - {fst taskId}\<rparr>))
           | Some task \<Rightarrow>
               (case deps_loop_any (hasCycle_any n g) taskId (snd task) st1 of
                  None \<Rightarrow> None
                | Some (Inl e) \<Rightarrow> Some (Inl e)
                | Some (Inr (True, st2)) \<Rightarrow> Some (Inr (True, st2))
                | Some (Inr (False, st2)) \<Rightarrow>
                    Some (Inr (False, st2\<lparr>onStack := onStack st2 - {fst taskId}\<rparr>))))"

fun detect_roots_any ::
  "nat \<Rightarrow> ((ident \<times> json) \<times> (ident \<times> json) list) list
     \<Rightarrow> ((ident \<times> json) \<times> (ident \<times> json) list) list \<Rightarrow> walk \<Rightarrow> (error + walk) option"
where
  "detect_roots_any n g [] st = Some (Inr st)"
| "detect_roots_any n g (task # rest) st =
     (if fst (fst task) \<in> seen st then detect_roots_any n g rest st
      else case hasCycle_any n g (fst task) st of
             None \<Rightarrow> None
           | Some (Inl e) \<Rightarrow> Some (Inl e)
           | Some (Inr (_, st')) \<Rightarrow> detect_roots_any n g rest st')"

text \<open>Every identity a traversal can meet.\<close>

definition idents :: "((ident \<times> json) \<times> (ident \<times> json) list) list \<Rightarrow> ident list" where
  "idents g = concat (map (\<lambda>task. fst (fst task) # map fst (snd task)) g)"

definition detectCircularDependencies_any :: "BuiltTask list \<Rightarrow> (error + nat) option" where
  "detectCircularDependencies_any ts =
     (case detect_roots_any (Suc (length (idents (placed_tasks ts)))) (placed_tasks ts)
             (placed_tasks ts) \<lparr>seen = {}, onStack = {}, reports = 0\<rparr> of
        None \<Rightarrow> None
      | Some (Inl e) \<Rightarrow> Some (Inl e)
      | Some (Inr st) \<Rightarrow> Some (Inr (reports st)))"

text \<open>
  \<^verbatim>\<open>findInvalidDependencies\<close>: for every dependency that is the id of no task, the text
  \<^verbatim>\<open>`${task.id} depends on non-existent task ${depId}`\<close> is built.
\<close>

definition findInvalidDependencies_any :: "BuiltTask list \<Rightarrow> error + nat" where
  "findInvalidDependencies_any ts =
     (let g = placed_tasks ts;
          taskIds = set (map (\<lambda>task. fst (fst task)) g);
          invalid = concat (map (\<lambda>task. map (\<lambda>depId. (fst task, depId))
                                  (filter (\<lambda>depId. fst depId \<notin> taskIds) (snd task))) g)
      in if list_ex (\<lambda>(taskId, depId). text_throws (snd taskId) \<or> text_throws (snd depId)) invalid
         then Inl TypeError else Inr (length invalid))"

text \<open>
  \<^verbatim>\<open>validatePlan\<close>: the two checks in turn; what they find is logged. \<open>None\<close> is "the
  fuel ran out", which \<open>validatePlan_any_total\<close> below excludes.
\<close>

definition validatePlan_any :: "BuiltTask list \<Rightarrow> (error + unit) option" where
  "validatePlan_any ts =
     (case detectCircularDependencies_any ts of
        None \<Rightarrow> None
      | Some (Inl e) \<Rightarrow> Some (Inl e)
      | Some (Inr cycles) \<Rightarrow>
          (case findInvalidDependencies_any ts of
             Inl e \<Rightarrow> Some (Inl e)
           | Inr invalidDeps \<Rightarrow> Some (Inr ())))"

section \<open>Plan builder: parsePlanResponse and createPlan (planService.ts)\<close>

text \<open>
  \<^verbatim>\<open>parsePlanResponse\<close>. The \<^verbatim>\<open>catch\<close> takes every exception of the \<^verbatim>\<open>try\<close> block (of
  \<^verbatim>\<open>processTasks\<close> and of \<^verbatim>\<open>validatePlan\<close>) and returns the fallback plan; nothing is thrown
  outside the \<^verbatim>\<open>try\<close> block.
\<close>

definition parsePlanResponse :: "host \<Rightarrow> string \<Rightarrow> string \<Rightarrow> (error + BuiltPlan) option" where
  "parsePlanResponse h planResponse requirements =
     (let planData = extractJsonFromResponse h planResponse in
      if \<not> truthy planData then Some (Inr (built (createFallbackPlan h requirements)))
      else
        (case processTasks_any h (or_else (get_prop planData ''tasks'') (JArr [])) of
           Inl e \<Rightarrow> Some (Inr (built (createFallbackPlan h requirements)))
         | Inr ts \<Rightarrow>
             (case validatePlan_any ts of
                None \<Rightarrow> None
              | Some (Inl e) \<Rightarrow> Some (Inr (built (createFallbackPlan h requirements)))
              | Some (Inr ok) \<Rightarrow>
                  Some (Inr \<lparr>built_plan_id = generateId h 0 ''plan'',
                             built_plan_title =
                               or_else (get_prop planData ''title'')
                                 (JStr ''Generated Implementation Plan''),
                             built_plan_description =
                               or_else (get_prop planData ''description'') (JStr requirements),
                             built_tasks = ts,
                             built_created = now h, built_updated = now h,
                             built_plan_status = Draft\<rparr>))))"

text \<open>
  \<^verbatim>\<open>createPlan\<close> after the model has answered: \<^verbatim>\<open>generateContent\<close> catches its own
  errors and answers the empty string then, for which \<^verbatim>\<open>!planResponse\<close> holds.
\<close>

definition createPlan :: "host \<Rightarrow> string \<Rightarrow> string \<Rightarrow> (error + BuiltPlan) option" where
  "createPlan h planResponse requirements =
     (if planResponse = [] then Some (Inr (built (createFallbackPlan h requirements)))
      else parsePlanResponse h planResponse requirements)"

section \<open>Plan mutator and lifecycle (planService.ts)\<close>

text \<open>
  The object literal of \<^verbatim>\<open>modifyTask\<close>,
  \<^verbatim>\<open>{ ...plan.tasks[taskIndex], ...modifiedTask, id: plan.tasks[taskIndex].id }\<close>,
  as a map from keys to values. \<open>task_props\<close> are the properties of a task object
  (\<^verbatim>\<open>code\<close> only when it is set). \<open>own_props\<close> are the own enumerable properties a
  spread copies: those of an object, the indices of an array or of a string, none of a
  number, a boolean or \<^verbatim>\<open>null\<close>.
\<close>

definition task_props :: "Task \<Rightarrow> (string \<times> json) list" where
  "task_props t =
     [(''id'', JStr (task_id t)), (''title'', JStr (task_title t)),
      (''description'', JStr (task_description t)), (''files'', JArr (map JStr (files t))),
      (''dependencies'', JArr (map JStr (dependencies t))),
      (''status'', JStr (status_text (task_status t))),
      (''estimatedTime'', JStr (estimatedTime t)),
      (''priority'', JStr (priority_text (priority t)))]
     @ (case code t of None \<Rightarrow> [] | Some c \<Rightarrow> [(''code'', JStr c)])"

definition own_props :: "json \<Rightarrow> (string \<times> json) list" where
  "own_props v =
     (case v of
        JObj kvs \<Rightarrow> kvs
      | JArr xs \<Rightarrow> zip (map (decimal \<circ> int) [0..<length xs]) xs
      | JStr s \<Rightarrow> zip (map (decimal \<circ> int) [0..<length s]) (map (\<lambda>c. JStr [c]) s)
      | _ \<Rightarrow> [])"

definition spread_task :: "Task \<Rightarrow> json \<Rightarrow> string \<Rightarrow> json option" where
  "spread_task t modifiedTask =
     (map_of (task_props t) ++ map_of (own_props modifiedTask))(''id'' \<mapsto> JStr (task_id t))"

text \<open>
  Reading an object at the type \<^verbatim>\<open>Task\<close>: \<open>None\<close> when a declared field is missing or
  holds a value outside its type. Properties the interface does not declare are not
  read.
\<close>

definition as_string :: "json option \<Rightarrow> string option" where
  "as_string v = (case v of Some (JStr s) \<Rightarrow> Some s | _ \<Rightarrow> None)"

definition as_strings :: "json option \<Rightarrow> string list option" where
  "as_strings v = (case v of Some (JArr xs) \<Rightarrow> strings_of xs | _ \<Rightarrow> None)"

definition as_status :: "json option \<Rightarrow> TaskStatus option" where
  "as_status v =
     (if v = Some (JStr ''pending'') then Some Pending
      else if v = Some (JStr ''in-progress'') then Some InProgress
      else if v = Some (JStr ''completed'') then Some Completed
      else if v = Some (JStr ''failed'') then Some Failed
      else None)"

definition as_priority :: "json option \<Rightarrow> Priority option" where
  "as_priority v =
     (if v = Some (JStr ''low'') then Some Low
      else if v = Some (JStr ''medium'') then Some Medium
      else if v = Some (JStr ''high'') then Some High
      else None)"

definition as_code :: "json option \<Rightarrow> string option option" where
  "as_code v = (case v of None \<Rightarrow> Some None | Some (JStr s) \<Rightarrow> Some (Some s) | _ \<Rightarrow> None)"

definition read_Task :: "(string \<Rightarrow> json option) \<Rightarrow> Task option" where
  "read_Task obj =
     (case (as_string (obj ''id''), as_string (obj ''title''), as_string (obj ''description''),
            as_strings (obj ''files''), as_strings (obj ''dependencies'')) of
        (Some i, Some t, Some d, Some fs, Some ds) \<Rightarrow>
          (case (as_status (obj ''status''), as_string (obj ''estimatedTime''),
                 as_priority (obj ''priority''), as_code (obj ''code'')) of
             (Some st, Some e, Some p, Some c) \<Rightarrow>
               Some \<lparr>task_id = i, task_title = t, task_description = d, files = fs,
                     dependencies = ds, task_status = st, estimatedTime = e, priority = p,
                     code = c\<rparr>
           | _ \<Rightarrow> None)
      | _ \<Rightarrow> None)"

text \<open>
  A plan as the JavaScript holds it after \<^verbatim>\<open>modifyTask\<close>: each task is the object of its
  properties, which for the task at the index may hold any JSON value under any key.
  \<open>Plan_object\<close> is a \<^verbatim>\<open>Plan\<close> as such a value, and \<open>read_Plan\<close> reads such a value at the
  type \<^verbatim>\<open>Plan\<close>.
\<close>

definition Task_object :: "Task \<Rightarrow> string \<Rightarrow> json option" where
  "Task_object t = map_of (task_props t)"

record PlanObject =
  object_id :: string
  object_title :: string
  object_description :: string
  object_tasks :: "(string \<Rightarrow> json option) list"
  object_created :: Date
  object_updated :: Date
  object_status :: PlanStatus

definition Plan_object :: "Plan \<Rightarrow> PlanObject" where
  "Plan_object plan =
     \<lparr>object_id = plan_id plan, object_title = plan_title plan,
      object_description = plan_description plan,
      object_tasks = map Task_object (tasks plan),
      object_created = created plan, object_updated = updated plan,
      object_status = plan_status plan\<rparr>"

fun read_Tasks :: "(string \<Rightarrow> json option) list \<Rightarrow> Task list option" where
  "read_Tasks [] = Some []"
| "read_Tasks (obj # objs) =
     (case read_Task obj of
        None \<Rightarrow> None
      | Some t \<Rightarrow> (case read_Tasks objs of None \<Rightarrow> None | Some ts \<Rightarrow> Some (t # ts)))"

definition read_Plan :: "PlanObject \<Rightarrow> Plan option" where
  "read_Plan obj =
     (case read_Tasks (object_tasks obj) of
        None \<Rightarrow> None
      | Some ts \<Rightarrow>
          Some \<lparr>plan_id = object_id obj, plan_title = object_title obj,
                plan_description = object_description obj, tasks = ts,
                created = object_created obj, updated = object_updated obj,
                plan_status = object_status obj\<rparr>)"

text \<open>
  \<^verbatim>\<open>modifyTask(plan, taskIndex, modification)\<close>, with the model's answer \<open>response\<close> to
  the prompt built from \<^verbatim>\<open>modification\<close> as an argument. The index is the integer the
  callers compute (\<^verbatim>\<open>parseInt(...) - 1\<close>; \<^verbatim>\<open>NaN\<close> fails the guard as an out-of-range
  integer does). An answer \<^verbatim>\<open>JSON.parse\<close> rejects is caught and the plan is returned as
  it is, \<^verbatim>\<open>updated\<close> included. Every other answer is merged into the task at the index,
  whatever it parses to, and \<^verbatim>\<open>updated\<close> is set.
\<close>

definition modifyTask_object :: "host \<Rightarrow> Plan \<Rightarrow> int \<Rightarrow> string \<Rightarrow> PlanObject" where
  "modifyTask_object h plan taskIndex response =
     (if taskIndex < 0 \<or> taskIndex \<ge> int (length (tasks plan)) then Plan_object plan
      else
        (case JSON_parse h (case brace_match response of Some jsonMatch \<Rightarrow> jsonMatch
                                                       | None \<Rightarrow> response) of
           None \<Rightarrow> Plan_object plan
         | Some modifiedTask \<Rightarrow>
             (Plan_object plan)
               \<lparr>object_tasks :=
                  (map Task_object (tasks plan))
                    [nat taskIndex := spread_task (tasks plan ! nat taskIndex) modifiedTask],
                object_updated := now h\<rparr>))"

text \<open>
  \<^verbatim>\<open>modifyTask\<close> read at its declared type \<^verbatim>\<open>Promise<Plan>\<close>: a run that stores a value
  outside the type of its field is \<open>Untyped\<close>. The lemma \<open>modifyTask_reads_object\<close>
  below shows that \<open>modifyTask\<close> is \<open>modifyTask_object\<close> read at the type \<^verbatim>\<open>Plan\<close>.
\<close>

definition modifyTask :: "host \<Rightarrow> Plan \<Rightarrow> int \<Rightarrow> string \<Rightarrow> Plan outcome" where
  "modifyTask h plan taskIndex response =
     (if taskIndex < 0 \<or> taskIndex \<ge> int (length (tasks plan)) then Returns plan
      else
        (case JSON_parse h (case brace_match response of Some jsonMatch \<Rightarrow> jsonMatch
                                                       | None \<Rightarrow> response) of
           None \<Rightarrow> Returns plan
         | Some modifiedTask \<Rightarrow>
             (case read_Task (spread_task (tasks plan ! nat taskIndex) modifiedTask) of
                None \<Rightarrow> Untyped
              | Some task \<Rightarrow>
                  Returns (plan\<lparr>tasks := (tasks plan)[nat taskIndex := task],
                                updated := now h\<rparr>))))"

text \<open>
  \<^verbatim>\<open>removeTask(plan, taskIndex)\<close>. In range: \<^verbatim>\<open>splice(taskIndex, 1)\<close>, then every
  remaining task keeps the dependencies that differ from the removed id, and
  \<^verbatim>\<open>updated\<close> is set. Out of range the plan is returned as it is.
\<close>

definition removeTask :: "host \<Rightarrow> Plan \<Rightarrow> int \<Rightarrow> Plan" where
  "removeTask h plan taskIndex =
     (if taskIndex \<ge> 0 \<and> taskIndex < int (length (tasks plan)) then
        let removedTask = tasks plan ! nat taskIndex;
            spliced = take (nat taskIndex) (tasks plan) @ drop (Suc (nat taskIndex)) (tasks plan)
        in plan\<lparr>tasks :=
                  map (\<lambda>task. task\<lparr>dependencies :=
                         filter (\<lambda>depId. depId \<noteq> task_id removedTask) (dependencies task)\<rparr>)
                    spliced,
                updated := now h\<rparr>
      else plan)"

text \<open>
  \<^verbatim>\<open>updateTaskStatus(plan, taskId, status)\<close>: \<^verbatim>\<open>find\<close> gives the first task with that
  id; the assignment \<^verbatim>\<open>task.status = status\<close> changes that element of the array in
  place. No test of the current status stands before the assignment.
\<close>

fun update_first :: "('a \<Rightarrow> bool) \<Rightarrow> ('a \<Rightarrow> 'a) \<Rightarrow> 'a list \<Rightarrow> 'a list" where
  "update_first P f [] = []"
| "update_first P f (x # xs) = (if P x then f x # xs else x # update_first P f xs)"

definition updateTaskStatus :: "host \<Rightarrow> Plan \<Rightarrow> string \<Rightarrow> TaskStatus \<Rightarrow> Plan" where
  "updateTaskStatus h plan taskId status =
     (case find (\<lambda>t. task_id t = taskId) (tasks plan) of
        Some task \<Rightarrow>
          plan\<lparr>tasks := update_first (\<lambda>t. task_id t = taskId) (\<lambda>t. t\<lparr>task_status := status\<rparr>)
                            (tasks plan),
               updated := now h\<rparr>
      | None \<Rightarrow> plan)"

section \<open>Persistence: exportPlan and importPlan (planService.ts)\<close>

text \<open>
  \<^verbatim>\<open>JSON.stringify(plan, null, 2)\<close> at the type \<^verbatim>\<open>Plan\<close>: objects and non-empty arrays
  one member per line, indented by two more spaces at each level; an empty array is
  \<^verbatim>\<open>[]\<close>; a string is quoted, with the quote, the backslash and the control characters
  escaped; a date is its ISO text, and \<^verbatim>\<open>null\<close> when it is invalid.
\<close>

definition nl :: string where "nl = [CHR 0x0A]"

definition hex_digit :: "nat \<Rightarrow> char" where
  "hex_digit n = (if n < 10 then char_of (48 + n) else char_of (87 + n))"

definition escape :: "char \<Rightarrow> string" where
  "escape c =
     (if c = CHR 0x22 then [CHR 0x5C, CHR 0x22]
      else if c = CHR 0x5C then [CHR 0x5C, CHR 0x5C]
      else if c = CHR 0x08 then [CHR 0x5C, CHR ''b'']
      else if c = CHR 0x0C then [CHR 0x5C, CHR ''f'']
      else if c = CHR 0x0A then [CHR 0x5C, CHR ''n'']
      else if c = CHR 0x0D then [CHR 0x5C, CHR ''r'']
      else if c = CHR 0x09 then [CHR 0x5C, CHR ''t'']
      else if (of_char c :: nat) < 32 then
        [CHR 0x5C, CHR ''u'', CHR ''0'', CHR ''0'',
         hex_digit (of_char c div 16), hex_digit (of_char c mod 16)]
      else [c])"

definition quote :: "string \<Rightarrow> string" where
  "quote s = CHR 0x22 # concat (map escape s) @ [CHR 0x22]"

definition spaces :: "nat \<Rightarrow> string" where
  "spaces n = replicate n (CHR '' '')"

fun join_with :: "string \<Rightarrow> string list \<Rightarrow> string" where
  "join_with sep [] = []"
| "join_with sep [x] = x"
| "join_with sep (x # y # ys) = x @ sep @ join_with sep (y # ys)"

definition block :: "char \<Rightarrow> char \<Rightarrow> nat \<Rightarrow> string list \<Rightarrow> string" where
  "block opening closing ind items =
     (if items = [] then [opening, closing]
      else [opening] @ nl @ join_with ('','' @ nl) (map (\<lambda>i. spaces (ind + 2) @ i) items)
           @ nl @ spaces ind @ [closing])"

definition member_text :: "string \<Rightarrow> string \<Rightarrow> string" where
  "member_text key val = quote key @ '': '' @ val"

definition stringify_strings :: "nat \<Rightarrow> string list \<Rightarrow> string" where
  "stringify_strings ind xs = block (CHR ''['') (CHR '']'') ind (map quote xs)"

definition stringify_Task :: "nat \<Rightarrow> Task \<Rightarrow> string" where
  "stringify_Task ind t =
     block (CHR ''{'') (CHR ''}'') ind
       ([member_text ''id'' (quote (task_id t)),
         member_text ''title'' (quote (task_title t)),
         member_text ''description'' (quote (task_description t)),
         member_text ''files'' (stringify_strings (ind + 2) (files t)),
         member_text ''dependencies'' (stringify_strings (ind + 2) (dependencies t)),
         member_text ''status'' (quote (status_text (task_status t))),
         member_text ''estimatedTime'' (quote (estimatedTime t)),
         member_text ''priority'' (quote (priority_text (priority t)))]
        @ (case code t of None \<Rightarrow> [] | Some c \<Rightarrow> [member_text ''code'' (quote c)]))"

definition stringify_Date :: "Date \<Rightarrow> string" where
  "stringify_Date d = (case d of Date t \<Rightarrow> quote t | InvalidDate \<Rightarrow> ''null'')"

definition exportPlan :: "Plan \<Rightarrow> string" where
  "exportPlan plan =
     block (CHR ''{'') (CHR ''}'') 0
       [member_text ''id'' (quote (plan_id plan)),
        member_text ''title'' (quote (plan_title plan)),
        member_text ''description'' (quote (plan_description plan)),
        member_text ''tasks'' (block (CHR ''['') (CHR '']'') 2 (map (stringify_Task 4) (tasks plan))),
        member_text ''created'' (stringify_Date (created plan)),
        member_text ''updated'' (stringify_Date (updated plan)),
        member_text ''status'' (quote (plan_status_text (plan_status plan)))]"

text \<open>\<^verbatim>\<open>planData.status || "draft"\<close> read at the type of \<^verbatim>\<open>Plan.status\<close>.\<close>

definition plan_status_or_draft :: "json option \<Rightarrow> PlanStatus option" where
  "plan_status_or_draft v =
     (case v of
        None \<Rightarrow> Some Draft
      | Some j \<Rightarrow>
          if \<not> truthy j then Some Draft
          else if j = JStr ''draft'' then Some Draft
          else if j = JStr ''approved'' then Some Approved
          else if j = JStr ''executing'' then Some Executing
          else if j = JStr ''completed'' then Some PlanCompleted
          else if j = JStr ''failed'' then Some PlanFailed
          else None)"

text \<open>\<^verbatim>\<open>planData.created ? new Date(planData.created) : new Date()\<close>; \<open>None\<close> when
  the constructor throws.\<close>

definition created_or_now :: "host \<Rightarrow> json option \<Rightarrow> Date option" where
  "created_or_now h v =
     (case v of
        None \<Rightarrow> Some (now h)
      | Some j \<Rightarrow> if truthy j then Date_new h j else Some (now h))"

text \<open>
  \<^verbatim>\<open>importPlan\<close>. Every exception of the \<^verbatim>\<open>try\<close> block (the \<^verbatim>\<open>SyntaxError\<close> of
  \<^verbatim>\<open>JSON.parse\<close>, the \<^verbatim>\<open>TypeError\<close> of \<^verbatim>\<open>planData.id\<close> on \<^verbatim>\<open>null\<close>, those of
  \<^verbatim>\<open>processTasks\<close> and of the \<^verbatim>\<open>Date\<close> constructor) is caught, and the \<^verbatim>\<open>catch\<close> throws
  \<^verbatim>\<open>new Error("Failed to import plan")\<close>. The tasks go through the \<^verbatim>\<open>processTasks\<close> of
  the plan builder.
\<close>

definition importPlan :: "host \<Rightarrow> string \<Rightarrow> Plan outcome" where
  "importPlan h planJson =
     (case JSON_parse h planJson of
        None \<Rightarrow> Throws (Error ''Failed to import plan'')
      | Some planData \<Rightarrow>
          if planData = JNull then Throws (Error ''Failed to import plan'')
          else
            (case (processTasks h (or_else (get_prop planData ''tasks'') (JArr [])),
                   created_or_now h (get_prop planData ''created'')) of
               (Throws e, _) \<Rightarrow> Throws (Error ''Failed to import plan'')
             | (_, None) \<Rightarrow> Throws (Error ''Failed to import plan'')
             | (Untyped, _) \<Rightarrow> Untyped
             | (Returns ts, Some date) \<Rightarrow>
                 (case (string_or (get_prop planData ''id'') (generateId h 0 ''plan''),
                        string_or (get_prop planData ''title'') ''Imported Plan'',
                        string_or (get_prop planData ''description'') ''Imported plan'',
                        plan_status_or_draft (get_prop planData ''status'')) of
                    (Some i, Some title, Some description, Some status) \<Rightarrow>
                      Returns \<lparr>plan_id = i, plan_title = title, plan_description = description,
                               tasks = ts, created = date, updated = now h,
                               plan_status = status\<rparr>
                  | _ \<Rightarrow> Untyped)))"

section \<open>A reference reader of JSON text\<close>

text \<open>
  An executable reading of the JSON grammar (ECMA-404), used as the \<open>JSON_parse\<close> of
  the example host so that the model runs on concrete text; the theorems hold for every
  host. Whitespace is space, tab, line feed and carriage return; a number keeps the
  exact decimal value of its literal; a later member with the key of an earlier one
  replaces its value. Strings are lists of 8-bit characters here, so an escape above
  code 255 has no image and the reader gives up on it. The recursion is bounded by
  fuel, which \<open>read_json\<close> takes from the length of the text.
\<close>

definition is_ws :: "char \<Rightarrow> bool" where
  "is_ws c \<longleftrightarrow> c = CHR '' '' \<or> c = CHR 0x09 \<or> c = CHR 0x0A \<or> c = CHR 0x0D"

definition skip_ws :: "string \<Rightarrow> string" where
  "skip_ws s = dropWhile is_ws s"

definition is_digit :: "char \<Rightarrow> bool" where
  "is_digit c \<longleftrightarrow> (48::nat) \<le> of_char c \<and> of_char c \<le> (57::nat)"

definition digit_val :: "char \<Rightarrow> nat" where
  "digit_val c = of_char c - 48"

definition hex_val :: "char \<Rightarrow> nat option" where
  "hex_val c =
     (let n = (of_char c :: nat) in
      if 48 \<le> n \<and> n \<le> 57 then Some (n - 48)
      else if 97 \<le> n \<and> n \<le> 102 then Some (n - 87)
      else if 65 \<le> n \<and> n \<le> 70 then Some (n - 55)
      else None)"

definition unescape :: "char \<Rightarrow> char option" where
  "unescape e =
     (if e = CHR 0x22 then Some (CHR 0x22)
      else if e = CHR 0x5C then Some (CHR 0x5C)
      else if e = CHR ''/'' then Some (CHR ''/'')
      else if e = CHR ''b'' then Some (CHR 0x08)
      else if e = CHR ''f'' then Some (CHR 0x0C)
      else if e = CHR ''n'' then Some (CHR 0x0A)
      else if e = CHR ''r'' then Some (CHR 0x0D)
      else if e = CHR ''t'' then Some (CHR 0x09)
      else None)"

fun read_chars :: "string \<Rightarrow> (string \<times> string) option" where
  "read_chars [] = None"
| "read_chars (c # cs) =
     (if c = CHR 0x22 then Some ([], cs)
      else if c = CHR 0x5C then
        (case cs of
           [] \<Rightarrow> None
         | e # r \<Rightarrow>
             if e = CHR ''u'' then
               (case r of
                  a # b # c' # d # r' \<Rightarrow>
                    (case (hex_val a, hex_val b, hex_val c', hex_val d) of
                       (Some x3, Some x2, Some x1, Some x0) \<Rightarrow>
                         (if x3 = 0 \<and> x2 = 0 then
                            map_option (\<lambda>(str, rest). (char_of (16 * x1 + x0) # str, rest))
                              (read_chars r')
                          else None)
                     | _ \<Rightarrow> None)
                | _ \<Rightarrow> None)
             else
               (case unescape e of
                  None \<Rightarrow> None
                | Some u \<Rightarrow> map_option (\<lambda>(str, rest). (u # str, rest)) (read_chars r)))
      else if (of_char c :: nat) < 32 then None
      else map_option (\<lambda>(str, rest). (c # str, rest)) (read_chars cs))"

definition digits_val :: "string \<Rightarrow> nat" where
  "digits_val ds = foldl (\<lambda>n c. 10 * n + digit_val c) 0 ds"

definition read_exponent :: "string \<Rightarrow> (int \<times> string) option" where
  "read_exponent s =
     (case s of
        [] \<Rightarrow> Some (0, s)
      | c # cs \<Rightarrow>
          if c = CHR ''e'' \<or> c = CHR ''E'' then
            (let (neg, r) = (case cs of
                               [] \<Rightarrow> (False, cs)
                             | g # r' \<Rightarrow> if g = CHR ''-'' then (True, r')
                                         else if g = CHR ''+'' then (False, r') else (False, cs));
                 ds = takeWhile is_digit r
             in if ds = [] then None
                else Some ((if neg then - int (digits_val ds) else int (digits_val ds)),
                           dropWhile is_digit r))
          else Some (0, s))"

definition read_number :: "string \<Rightarrow> (json \<times> string) option" where
  "read_number s =
     (let (neg, r0) = (case s of c # cs \<Rightarrow> if c = CHR ''-'' then (True, cs) else (False, s)
                              | [] \<Rightarrow> (False, s));
          ip = takeWhile is_digit r0;
          r1 = dropWhile is_digit r0
      in if ip = [] \<or> (length ip > 1 \<and> hd ip = CHR ''0'') then None
         else
           (let (fp, r2, ok) =
                  (case r1 of
                     c # cs \<Rightarrow>
                       if c = CHR ''.'' then
                         (takeWhile is_digit cs, dropWhile is_digit cs, takeWhile is_digit cs \<noteq> [])
                       else ([], r1, True)
                   | [] \<Rightarrow> ([], r1, True))
            in if \<not> ok then None
               else
                 (case read_exponent r2 of
                    None \<Rightarrow> None
                  | Some (ex, r3) \<Rightarrow>
                      (let m = int (digits_val (ip @ fp))
                       in Some (JNum (if neg then - m else m) (ex - int (length fp)), r3)))))"

fun obj_put :: "string \<Rightarrow> json \<Rightarrow> (string \<times> json) list \<Rightarrow> (string \<times> json) list" where
  "obj_put k v [] = [(k, v)]"
| "obj_put k v ((k', v') # kvs) =
     (if k = k' then (k, v) # kvs else (k', v') # obj_put k v kvs)"

definition starts_with :: "string \<Rightarrow> string \<Rightarrow> bool" where
  "starts_with p s \<longleftrightarrow> take (length p) s = p"

fun read_value :: "nat \<Rightarrow> string \<Rightarrow> (json \<times> string) option"
  and read_elements :: "nat \<Rightarrow> json list \<Rightarrow> string \<Rightarrow> (json \<times> string) option"
  and read_members :: "nat \<Rightarrow> (string \<times> json) list \<Rightarrow> string \<Rightarrow> (json \<times> string) option"
where
  "read_value 0 s = None"
| "read_value (Suc n) s =
     (case skip_ws s of
        [] \<Rightarrow> None
      | c # cs \<Rightarrow>
          if c = CHR ''{'' then
            (case skip_ws cs of
               [] \<Rightarrow> None
             | d # r \<Rightarrow> if d = CHR ''}'' then Some (JObj [], r) else read_members n [] (d # r))
          else if c = CHR ''['' then
            (case skip_ws cs of
               [] \<Rightarrow> None
             | d # r \<Rightarrow> if d = CHR '']'' then Some (JArr [], r) else read_elements n [] (d # r))
          else if c = CHR 0x22 then map_option (\<lambda>(str, r). (JStr str, r)) (read_chars cs)
          else if starts_with ''true'' (c # cs) then Some (JBool True, drop 4 (c # cs))
          else if starts_with ''false'' (c # cs) then Some (JBool False, drop 5 (c # cs))
          else if starts_with ''null'' (c # cs) then Some (JNull, drop 4 (c # cs))
          else read_number (c # cs))"
| "read_elements 0 acc s = None"
| "read_elements (Suc n) acc s =
     (case read_value n s of
        None \<Rightarrow> None
      | Some (v, r) \<Rightarrow>
          (case skip_ws r of
             [] \<Rightarrow> None
           | c # r' \<Rightarrow>
               if c = CHR '','' then read_elements n (acc @ [v]) r'
               else if c = CHR '']'' then Some (JArr (acc @ [v]), r')
               else None))"
| "read_members 0 acc s = None"
| "read_members (Suc n) acc s =
     (case skip_ws s of
        [] \<Rightarrow> None
      | q # cs \<Rightarrow>
          if q \<noteq> CHR 0x22 then None
          else
            (case read_chars cs of
               None \<Rightarrow> None
             | Some (k, r) \<Rightarrow>
                 (case skip_ws r of
                    [] \<Rightarrow> None
                  | c # r1 \<Rightarrow>
                      if c \<noteq> CHR '':'' then None
                      else
                        (case read_value n r1 of
                           None \<Rightarrow> None
                         | Some (v, r2) \<Rightarrow>
                             (case skip_ws r2 of
                                [] \<Rightarrow> None
                              | e # r3 \<Rightarrow>
                                  if e = CHR '','' then read_members n (obj_put k v acc) r3
                                  else if e = CHR ''}'' then Some (JObj (obj_put k v acc), r3)
                                  else None)))))"

definition read_json :: "string \<Rightarrow> json option" where
  "read_json s =
     (case read_value (Suc (length s)) s of
        None \<Rightarrow> None
      | Some (v, r) \<Rightarrow> if skip_ws r = [] then Some v else None)"

section \<open>Examples\<close>

text \<open>
  An example host. Its \<open>Date_new\<close> reads the ISO texts \<^verbatim>\<open>toISOString()\<close> writes and
  gives an invalid date on every other value, which is all the examples need of it.
\<close>

definition iso_shaped :: "string \<Rightarrow> bool" where
  "iso_shaped s \<longleftrightarrow>
     length s = 24 \<and> s ! 4 = CHR ''-'' \<and> s ! 7 = CHR ''-'' \<and> s ! 10 = CHR ''T''
     \<and> s ! 13 = CHR '':'' \<and> s ! 16 = CHR '':'' \<and> s ! 19 = CHR ''.'' \<and> s ! 23 = CHR ''Z''
     \<and> list_all is_digit
          (map ((!) s) [0, 1, 2, 3, 5, 6, 8, 9, 11, 12, 14, 15, 17, 18, 20, 21, 22])"

definition host0 :: host where
  "host0 =
     \<lparr>JSON_parse = read_json,
      Date_new = (\<lambda>j. case j of
                         JStr s \<Rightarrow> Some (if iso_shaped s then Date s else InvalidDate)
                       | _ \<Rightarrow> Some InvalidDate),
      now = Date ''2024-05-01T10:00:00.000Z'', millis = 1714557600000,
      random36 = (\<lambda>k. ''k3j9x0q2'' @ [char_of (97 + k mod 26)])\<rparr>"

definition node :: "string \<Rightarrow> string list \<Rightarrow> TaskStatus \<Rightarrow> Task" where
  "node i ds st =
     \<lparr>task_id = i, task_title = ''Task '' @ i, task_description = ''Do '' @ i,
      files = [], dependencies = ds, task_status = st,
      estimatedTime = ''30 minutes'', priority = Medium, code = None\<rparr>"

definition plan_of :: "Task list \<Rightarrow> Plan" where
  "plan_of ts =
     \<lparr>plan_id = ''plan-1'', plan_title = ''Demo'', plan_description = ''An example'',
      tasks = ts, created = Date ''2024-04-30T09:00:00.000Z'',
      updated = Date ''2024-04-30T09:00:00.000Z'', plan_status = Executing\<rparr>"

text \<open>Task A without dependencies, task B depending on A.\<close>

definition planAB :: "TaskStatus \<Rightarrow> Plan" where
  "planAB statusA = plan_of [node ''A'' [] statusA, node ''B'' [''A''] Pending]"



text \<open>An answer of the model that carries an \<^verbatim>\<open>id\<close> of its own.\<close>

definition answer_with_id :: string where
  "answer_with_id =
     ''Here it is: {'' @ quote ''title'' @ '': '' @ quote ''Build faster'' @ '', ''
       @ quote ''id'' @ '': '' @ quote ''other'' @ ''} Done.''"

text \<open>Lists in which two tasks share the id A.\<close>

definition twiceA :: "Task list" where
  "twiceA = [node ''A'' [] Pending, node ''A'' [] Completed]"


definition repeatedA :: Plan where
  "repeatedA =
     plan_of [node ''A'' [] Pending, node ''A'' [] Completed, node ''C'' [''A''] Pending]"

text \<open>Answers of the model that carry values outside the types of their fields.\<close>

definition answer_urgent :: string where
  "answer_urgent =
     ''{'' @ quote ''priority'' @ '': '' @ quote ''urgent'' @ '', ''
       @ quote ''id'' @ '': 7}''"

definition answer_numeric_id :: string where
  "answer_numeric_id =
     ''{'' @ quote ''tasks'' @ '': [{'' @ quote ''id'' @ '': 1, ''
       @ quote ''title'' @ '': '' @ quote ''Set up'' @ ''}]}''"

text \<open>An answer with a dependency that has no text: an object with a key \<^verbatim>\<open>toString\<close>.\<close>

definition answer_no_text :: string where
  "answer_no_text =
     ''{'' @ quote ''tasks'' @ '': [{'' @ quote ''id'' @ '': '' @ quote ''a'' @ '', ''
       @ quote ''dependencies'' @ '': [{'' @ quote ''toString'' @ '': 1}]}]}''"
section \<open>Cycle detection: it returns, and what it reports\<close>

lemma find_in: "find P xs = Some x \<Longrightarrow> x \<in> set xs \<and> P x"
  by (induction xs) (auto split: if_splits)

lemma deps_in_nodes: "t \<in> set ts \<Longrightarrow> set (dependencies t) \<subseteq> set (nodes ts)"
  by (auto simp: nodes_def)

lemma ids_in_nodes: "t \<in> set ts \<Longrightarrow> task_id t \<in> set (nodes ts)"
  by (auto simp: nodes_def)

lemma card_diff_mono:
  assumes "finite U" "V \<subseteq> V'"
  shows "card (U - V') \<le> card (U - V)"
  by (rule card_mono) (use assms in auto)

lemma card_diff_insert_less:
  assumes "finite U" "x \<in> U" "x \<notin> V"
  shows "card (U - insert x V) < card (U - V)"
  by (rule psubset_card_mono) (use assms in auto)

lemma deps_loop_total:
  assumes hc: "\<And>d (st::dfs). d \<in> set ds \<Longrightarrow> card (U - visited st) < n \<Longrightarrow>
                 \<exists>b st'. hc d st = Some (b, st') \<and> visited st \<subseteq> visited st'"
    and fin: "finite U"
    and fuel: "card (U - visited (st::dfs)) < n"
  shows "\<exists>b st'. deps_loop hc x ds st = Some (b, st') \<and> visited st \<subseteq> visited st'"
  using hc fuel
proof (induction ds arbitrary: st)
  case Nil
  then show ?case by auto
next
  case (Cons d ds)
  from Cons.prems(1)[of d st] Cons.prems(2)
  obtain b st1 where r: "hc d st = Some (b, st1)" and sub: "visited st \<subseteq> visited st1"
    by auto
  show ?case
  proof (cases b)
    case True
    with r sub show ?thesis by auto
  next
    case False
    have "card (U - visited st1) < n"
      using card_diff_mono[OF fin sub] Cons.prems(2) by simp
    with Cons.IH[of st1] Cons.prems(1)
    obtain b' st' where "deps_loop hc x ds st1 = Some (b', st')" "visited st1 \<subseteq> visited st'"
      by auto
    with r sub False show ?thesis by auto
  qed
qed

lemma hasCycle_total:
  assumes "card (set (nodes ts) - visited st) < n" "x \<in> set (nodes ts)"
  shows "\<exists>b st'. hasCycle n ts x st = Some (b, st') \<and> visited st \<subseteq> visited st'"
  using assms
proof (induction n arbitrary: x st)
  case 0
  then show ?case by simp
next
  case (Suc n)
  let ?U = "set (nodes ts)"
  show ?case
  proof (cases "x \<in> recursionStack st \<or> x \<in> visited st")
    case True
    then show ?thesis by auto
  next
    case False
    define st1 where "st1 = st\<lparr>visited := insert x (visited st),
                      recursionStack := insert x (recursionStack st)\<rparr>"
    have c1: "card (?U - visited st1) < n"
      using card_diff_insert_less[of ?U x "visited st"] Suc.prems False
      by (simp add: st1_def)
    show ?thesis
    proof (cases "find (\<lambda>t. task_id t = x) ts")
      case None
      with False show ?thesis by (auto simp: Let_def)
    next
      case (Some task)
      then have "task \<in> set ts" by (auto dest: find_in)
      then have dsub: "set (dependencies task) \<subseteq> ?U" by (rule deps_in_nodes)
      have "\<exists>b st'. deps_loop (hasCycle n ts) x (dependencies task) st1 = Some (b, st')
               \<and> visited st1 \<subseteq> visited st'"
      proof (rule deps_loop_total[where U = ?U and n = n])
        fix d and st :: dfs
        assume "d \<in> set (dependencies task)" "card (?U - visited st) < n"
        with dsub Suc.IH[of st d]
        show "\<exists>b st'. hasCycle n ts d st = Some (b, st') \<and> visited st \<subseteq> visited st'"
          by auto
      qed (use c1 in auto)
      then obtain b st2 where
        r: "deps_loop (hasCycle n ts) x (dependencies task) st1 = Some (b, st2)"
        and sub: "visited st1 \<subseteq> visited st2" by auto
      have "visited st \<subseteq> visited st2" using sub by (auto simp: st1_def)
      with r Some False show ?thesis
        by (cases b) (auto simp: Let_def st1_def)
    qed
  qed
qed

lemma detect_roots_total:
  assumes "card (set (nodes ts) - visited st) < n" "set rs \<subseteq> set ts"
  shows "\<exists>st'. detect_roots n ts rs st = Some st'"
  using assms
proof (induction rs arbitrary: st)
  case Nil
  then show ?case by simp
next
  case (Cons r rs)
  show ?case
  proof (cases "task_id r \<in> visited st")
    case True
    with Cons show ?thesis by simp
  next
    case False
    have "task_id r \<in> set (nodes ts)" using Cons.prems(2) by (auto intro: ids_in_nodes)
    from hasCycle_total[OF Cons.prems(1) this]
    obtain b st1 where r: "hasCycle n ts (task_id r) st = Some (b, st1)"
      and sub: "visited st \<subseteq> visited st1" by auto
    have "card (set (nodes ts) - visited st1) < n"
      using card_diff_mono[OF _ sub, of "set (nodes ts)"] Cons.prems(1) by simp
    with Cons.IH[of st1] Cons.prems(2) obtain st' where "detect_roots n ts rs st1 = Some st'"
      by auto
    with r False show ?thesis by simp
  qed
qed

lemma detectCircularDependencies_total: "\<exists>r. detectCircularDependencies ts = Some r"
proof -
  have "card (set (nodes ts) - {}) < Suc (length (nodes ts))"
    using card_length[of "nodes ts"] by simp
  then have "\<exists>st'. detect_roots (Suc (length (nodes ts))) ts ts
          \<lparr>visited = {}, recursionStack = {}, circularDeps = []\<rparr> = Some st'"
    by (intro detect_roots_total) auto
  then show ?thesis by (auto simp: detectCircularDependencies_def)
qed

lemma dep_edges_iff:
  "(x, d) \<in> dep_edges ts \<longleftrightarrow> (\<exists>t \<in> set ts. task_id t = x \<and> d \<in> set (dependencies t))"
  by (auto simp: dep_edges_def)

lemma deps_loop_clean:
  assumes hc: "\<And>d (st::dfs) b st'. d \<in> set ds \<Longrightarrow> recursionStack st = S \<Longrightarrow>
                 hc d st = Some (b, st') \<Longrightarrow>
                 \<not> b \<and> recursionStack st' = S \<and> circularDeps st' = circularDeps st"
    and run: "deps_loop hc x ds st = Some (b, st')"
    and stack: "recursionStack st = S"
  shows "\<not> b \<and> recursionStack st' = S \<and> circularDeps st' = circularDeps st"
  using hc run stack
proof (induction ds arbitrary: st)
  case Nil
  then show ?case by auto
next
  case (Cons d ds)
  from Cons.prems(2) obtain b1 st1 where r: "hc d st = Some (b1, st1)"
    by (auto split: option.splits)
  from Cons.prems(1)[OF _ Cons.prems(3) r]
  have c: "\<not> b1" "recursionStack st1 = S" "circularDeps st1 = circularDeps st" by auto
  with r Cons.prems(2) have rest: "deps_loop hc x ds st1 = Some (b, st')" by simp
  have "\<not> b \<and> recursionStack st' = S \<and> circularDeps st' = circularDeps st1"
  proof (rule Cons.IH[OF _ rest c(2)])
    fix da and s :: dfs and b' s'
    assume "da \<in> set ds" "recursionStack s = S" "hc da s = Some (b', s')"
    then show "\<not> b' \<and> recursionStack s' = S \<and> circularDeps s' = circularDeps s"
      using Cons.prems(1)[of da s b' s'] by simp
  qed
  with c(3) show ?case by simp
qed

lemma hasCycle_acyclic:
  assumes "acyclic (dep_edges ts)"
    and "hasCycle n ts x st = Some (b, st')"
    and "\<forall>s \<in> recursionStack st. (s, x) \<in> (dep_edges ts)\<^sup>+"
  shows "\<not> b \<and> recursionStack st' = recursionStack st \<and> circularDeps st' = circularDeps st"
  using assms(2,3)
proof (induction n arbitrary: x st b st')
  case 0
  then show ?case by simp
next
  case (Suc n)
  let ?R = "dep_edges ts"
  have notin: "x \<notin> recursionStack st"
  proof
    assume "x \<in> recursionStack st"
    with Suc.prems(2) have "(x, x) \<in> ?R\<^sup>+" by auto
    with assms(1) show False by (auto simp: acyclic_def)
  qed
  show ?case
  proof (cases "x \<in> visited st")
    case True
    with notin Suc.prems(1) show ?thesis by auto
  next
    case False
    define st1 where "st1 = st\<lparr>visited := insert x (visited st),
                      recursionStack := insert x (recursionStack st)\<rparr>"
    show ?thesis
    proof (cases "find (\<lambda>t. task_id t = x) ts")
      case None
      with False notin Suc.prems(1) show ?thesis by (auto simp: Let_def)
    next
      case (Some task)
      then have task: "task \<in> set ts" "task_id task = x" by (auto dest: find_in)
      from Some False notin Suc.prems(1) obtain b2 st2 where
        r: "deps_loop (hasCycle n ts) x (dependencies task) st1 = Some (b2, st2)"
        by (auto simp: Let_def st1_def split: option.splits)
      have "\<not> b2 \<and> recursionStack st2 = insert x (recursionStack st)
              \<and> circularDeps st2 = circularDeps st1"
      proof (rule deps_loop_clean[OF _ r])
        fix d and s :: dfs and b' s'
        assume d: "d \<in> set (dependencies task)"
          and s: "recursionStack s = insert x (recursionStack st)"
          and run: "hasCycle n ts d s = Some (b', s')"
        have e: "(x, d) \<in> ?R" using task d by (auto simp: dep_edges_iff)
        have "\<forall>a \<in> recursionStack s. (a, d) \<in> ?R\<^sup>+"
          using s e Suc.prems(2) by (auto intro: trancl_into_trancl)
        from Suc.IH[OF run this] s
        show "\<not> b' \<and> recursionStack s' = insert x (recursionStack st)
                \<and> circularDeps s' = circularDeps s" by simp
      qed (simp add: st1_def)
      with r Some False notin Suc.prems(1) show ?thesis
        by (auto simp: Let_def st1_def)
    qed
  qed
qed

lemma detect_roots_acyclic:
  assumes "acyclic (dep_edges ts)"
    and "detect_roots n ts rs st = Some st'"
    and "recursionStack st = {}"
  shows "circularDeps st' = circularDeps st"
  using assms(2,3)
proof (induction rs arbitrary: st)
  case Nil
  then show ?case by simp
next
  case (Cons r rs)
  show ?case
  proof (cases "task_id r \<in> visited st")
    case True
    with Cons show ?thesis by simp
  next
    case False
    with Cons.prems(1) obtain b st1 where
      r: "hasCycle n ts (task_id r) st = Some (b, st1)"
      and rest: "detect_roots n ts rs st1 = Some st'"
      by (auto split: option.splits)
    from hasCycle_acyclic[OF assms(1) r] Cons.prems(2)
    have "recursionStack st1 = {}" "circularDeps st1 = circularDeps st" by auto
    with Cons.IH[OF rest] show ?thesis by simp
  qed
qed

lemma detect_acyclic:
  assumes "acyclic (dep_edges ts)"
  shows "detectCircularDependencies ts = Some []"
proof -
  obtain r where r: "detectCircularDependencies ts = Some r"
    using detectCircularDependencies_total by blast
  then obtain st' where
    "detect_roots (Suc (length (nodes ts))) ts ts
       \<lparr>visited = {}, recursionStack = {}, circularDeps = []\<rparr> = Some st'"
    "r = circularDeps st'"
    by (auto simp: detectCircularDependencies_def)
  with detect_roots_acyclic[OF assms this(1)] r show ?thesis by simp
qed









lemma find_distinct:
  assumes "distinct (map task_id ts)" "t \<in> set ts"
  shows "find (\<lambda>u. task_id u = task_id t) ts = Some t"
  using assms by (induction ts) (auto simp: rev_image_eqI)








section \<open>Topological sort: one task for each id, ordered on acyclic graphs\<close>

lemma forEach_rule:
  assumes run: "forEach f xs st = Some st'"
    and base: "P [] st"
    and step: "\<And>pre x s s'. P pre s \<Longrightarrow> x \<in> set xs \<Longrightarrow> f x s = Some s' \<Longrightarrow> P (pre @ [x]) s'"
  shows "P xs st'"
proof -
  have "forEach f ys s = Some st' \<Longrightarrow> P pre s \<Longrightarrow> set ys \<subseteq> set xs \<Longrightarrow> P (pre @ ys) st'"
    for ys pre s
  proof (induction ys arbitrary: pre s)
    case Nil
    then show ?case by simp
  next
    case (Cons y ys)
    from Cons.prems(1) obtain s1 where r: "f y s = Some s1" and rest: "forEach f ys s1 = Some st'"
      by (auto split: option.splits)
    from step[OF Cons.prems(2) _ r] Cons.prems(3) have "P (pre @ [y]) s1" by simp
    from Cons.IH[OF rest this] Cons.prems(3) show ?case by simp
  qed
  from this[OF run base] show ?thesis by simp
qed

lemma forEach_total:
  assumes f: "\<And>x s. x \<in> set xs \<Longrightarrow> I s \<Longrightarrow> \<exists>s'. f x s = Some s' \<and> I s'"
    and "I st"
  shows "\<exists>st'. forEach f xs st = Some st' \<and> I st'"
  using assms
proof (induction xs arbitrary: st)
  case Nil
  then show ?case by simp
next
  case (Cons x xs)
  from Cons.prems(1)[of x st] Cons.prems(2) obtain s1 where r: "f x st = Some s1" "I s1"
    by auto
  have "\<exists>st'. forEach f xs s1 = Some st' \<and> I st'"
    by (rule Cons.IH) (use Cons.prems(1) r(2) in auto)
  with r show ?case by simp
qed

lemma taskMap_SomeD: "taskMap ts x = Some t \<Longrightarrow> t \<in> set ts \<and> task_id t = x"
  unfolding taskMap_def by (auto dest!: map_of_SomeD)

lemma visit_total:
  assumes "card (set (nodes ts) - W) < n" "x \<in> set (nodes ts)"
    "W \<subseteq> visiting st \<union> tvisited st"
  shows "\<exists>st'. visit n ts x st = Some st' \<and> visiting st \<union> tvisited st \<subseteq> visiting st' \<union> tvisited st'"
  using assms
proof (induction n arbitrary: x st W)
  case 0
  then show ?case by simp
next
  case (Suc n)
  let ?U = "set (nodes ts)"
  let ?W = "\<lambda>s::topo. visiting s \<union> tvisited s"
  show ?case
  proof (cases "x \<in> visiting st \<or> x \<in> tvisited st")
    case True
    then show ?thesis by auto
  next
    case False
    define st1 where "st1 = st\<lparr>visiting := insert x (visiting st)\<rparr>"
    have w1: "?W st1 = insert x (?W st)" by (simp add: st1_def)
    have "card (?U - ?W st) \<le> card (?U - W)"
      by (rule card_diff_mono) (use Suc.prems in auto)
    then have c1: "card (?U - ?W st1) < n"
      using card_diff_insert_less[of ?U x "?W st"] Suc.prems False w1 by simp
    show ?thesis
    proof (cases "taskMap ts x")
      case None
      with False show ?thesis by (auto simp: Let_def)
    next
      case (Some task)
      then have "task \<in> set ts" by (auto dest: taskMap_SomeD)
      then have dsub: "set (dependencies task) \<subseteq> ?U" by (rule deps_in_nodes)
      have "\<exists>st'. forEach (visit n ts) (dependencies task) st1 = Some st' \<and> ?W st1 \<subseteq> ?W st'"
      proof (rule forEach_total[where I = "\<lambda>s. ?W st1 \<subseteq> ?W s"])
        fix d and s :: topo
        assume d: "d \<in> set (dependencies task)" and s: "?W st1 \<subseteq> ?W s"
        from Suc.IH[OF c1 _ s, of d] d dsub
        obtain s' where "visit n ts d s = Some s'" "?W s \<subseteq> ?W s'" by auto
        with s show "\<exists>s'. visit n ts d s = Some s' \<and> ?W st1 \<subseteq> ?W s'" by auto
      qed simp
      then obtain st2 where
        r: "forEach (visit n ts) (dependencies task) st1 = Some st2"
        and sub: "?W st1 \<subseteq> ?W st2" by auto
      have "?W st \<subseteq> insert x (?W st2)" using sub w1 by auto
      with r Some False show ?thesis
        by (auto simp: Let_def st1_def)
    qed
  qed
qed

lemma topologicalSort_total: "\<exists>r. topologicalSort ts = Some r"
proof -
  let ?n = "Suc (length (nodes ts))"
  let ?W = "\<lambda>s::topo. visiting s \<union> tvisited s"
  have c: "card (set (nodes ts) - {}) < ?n"
    using card_length[of "nodes ts"] by simp
  have "\<exists>st'. forEach (visit ?n ts) (map task_id ts)
          \<lparr>tvisited = {}, visiting = {}, result = []\<rparr> = Some st' \<and> True"
  proof (rule forEach_total[where I = "\<lambda>s. True"])
    fix x and s :: topo
    assume "x \<in> set (map task_id ts)"
    then have "x \<in> set (nodes ts)" by (auto simp: nodes_def)
    from visit_total[OF c this, of s] show "\<exists>s'. visit ?n ts x s = Some s' \<and> True" by auto
  qed simp
  then show ?thesis by (auto simp: topologicalSort_def)
qed

lemma topo_step_refl: "topo_inv ts st \<Longrightarrow> topo_step ts st st"
  by (simp add: topo_step_def)

lemma topo_step_trans:
  assumes "topo_step ts a b" "topo_step ts b c"
  shows "topo_step ts a c"
proof -
  have "visiting c \<inter> task_id ` set ts \<subseteq> visiting a"
  proof
    fix x assume x: "x \<in> visiting c \<inter> task_id ` set ts"
    with assms(2) have "x \<in> visiting b \<inter> task_id ` set ts" unfolding topo_step_def by fast
    with assms(1) show "x \<in> visiting a" unfolding topo_step_def by fast
  qed
  moreover have "visiting a \<subseteq> visiting c" "tvisited a \<subseteq> tvisited c" "topo_inv ts c"
    using assms unfolding topo_step_def by fast+
  ultimately show ?thesis unfolding topo_step_def by simp
qed

lemma taskMap_None:
  assumes "taskMap ts x = None"
  shows "x \<notin> task_id ` set ts"
proof
  assume "x \<in> task_id ` set ts"
  then obtain t where "t \<in> set ts" "task_id t = x" by auto
  then have "(x, t) \<in> set (rev (map (\<lambda>task. (task_id task, task)) ts))" by auto
  then have "\<exists>u. taskMap ts x = Some u" unfolding taskMap_def by (rule weak_map_of_SomeI)
  with assms show False by simp
qed

lemma visit_seen: "x \<in> visiting st \<or> x \<in> tvisited st \<Longrightarrow> visit (Suc n) ts x st = Some st"
  by auto

lemma visit_inv:
  assumes "visit n ts x st = Some st'" "topo_inv ts st"
  shows "topo_step ts st st' \<and> (x \<in> task_id ` set ts \<longrightarrow> x \<in> tvisited st' \<or> x \<in> visiting st)"
  using assms
proof (induction n arbitrary: x st st')
  case 0
  then show ?case by simp
next
  case (Suc n)
  show ?case
  proof (cases "x \<in> visiting st \<or> x \<in> tvisited st")
    case True
    from Suc.prems(1) have "st' = st" unfolding visit_seen[OF True] by simp
    with True Suc.prems(2) show ?thesis by (auto simp: topo_step_refl)
  next
    case False
    define st1 where "st1 = st\<lparr>visiting := insert x (visiting st)\<rparr>"
    have inv1: "topo_inv ts st1" using Suc.prems(2) False by (auto simp: st1_def topo_inv_def)
    show ?thesis
    proof (cases "taskMap ts x")
      case None
      with False Suc.prems(1) have "st' = st1" by (auto simp: Let_def st1_def)
      moreover have "x \<notin> task_id ` set ts" using None by (rule taskMap_None)
      ultimately show ?thesis using inv1 by (auto simp: topo_step_def st1_def)
    next
      case (Some task)
      then have task: "task \<in> set ts" "task_id task = x" by (auto dest: taskMap_SomeD)
      from Some False Suc.prems(1) obtain st2 where
        r: "forEach (visit n ts) (dependencies task) st1 = Some st2"
        and st': "st' = st2\<lparr>visiting := visiting st2 - {x},
                              tvisited := insert x (tvisited st2),
                              result := result st2 @ [task]\<rparr>"
        by (auto simp: Let_def st1_def split: option.splits)
      have "topo_step ts st1 st2"
      proof (rule forEach_rule[OF r, where P = "\<lambda>pre s. topo_step ts st1 s"])
        show "topo_step ts st1 st1" using inv1 by (rule topo_step_refl)
      next
        fix d :: string and s s' :: topo
        assume "topo_step ts st1 s" "visit n ts d s = Some s'"
        moreover from this have "topo_step ts s s'"
          using Suc.IH[of d s s'] by (simp add: topo_step_def)
        ultimately show "topo_step ts st1 s'" by (blast intro: topo_step_trans)
      qed
      then have s2: "topo_inv ts st2" "insert x (visiting st) \<subseteq> visiting st2"
        "visiting st2 \<inter> task_id ` set ts \<subseteq> insert x (visiting st)"
        "tvisited st \<subseteq> tvisited st2"
        by (auto simp: topo_step_def st1_def)
      then have xn: "x \<notin> tvisited st2" by (auto simp: topo_inv_def)
      have "topo_inv ts st'"
        using s2(1) xn task by (auto simp: st' topo_inv_def)
      moreover have "visiting st \<subseteq> visiting st'" using s2(2) False by (auto simp: st')
      moreover have "visiting st' \<inter> task_id ` set ts \<subseteq> visiting st"
        using s2(3) by (auto simp: st')
      moreover have "tvisited st \<subseteq> tvisited st'" using s2(4) by (auto simp: st')
      moreover have "x \<in> tvisited st'" by (simp add: st')
      ultimately show ?thesis by (simp add: topo_step_def)
    qed
  qed
qed

lemma taskMap_snoc: "taskMap (ts @ [u]) x = (if x = task_id u then Some u else taskMap ts x)"
  by (simp add: taskMap_def)

lemma taskMap_last:
  "taskMap ts x = Some t \<longleftrightarrow>
     (\<exists>i < length ts. ts ! i = t \<and> task_id t = x
        \<and> (\<forall>j < length ts. i < j \<longrightarrow> task_id (ts ! j) \<noteq> x))"
proof (induction ts rule: rev_induct)
  case Nil
  then show ?case by (simp add: taskMap_def)
next
  case (snoc u ts)
  let ?us = "ts @ [u]"
  let ?rhs = "\<lambda>zs. \<exists>i < length zs. zs ! i = t \<and> task_id t = x
        \<and> (\<forall>j < length zs. i < j \<longrightarrow> task_id (zs ! j) \<noteq> x)"
  show ?case
  proof (cases "x = task_id u")
    case True
    have "?rhs ?us \<longleftrightarrow> t = u"
    proof
      assume "?rhs ?us"
      then obtain i where i: "i < length ?us" "?us ! i = t" "task_id t = x"
        "\<forall>j < length ?us. i < j \<longrightarrow> task_id (?us ! j) \<noteq> x" by blast
      have "\<not> i < length ts"
      proof
        assume "i < length ts"
        moreover have "length ts < length ?us" by simp
        ultimately have "task_id (?us ! length ts) \<noteq> x" using i(4) by blast
        with True show False by simp
      qed
      with i(1) have "i = length ts" by simp
      with i(2) show "t = u" by simp
    next
      assume "t = u"
      with True have "length ts < length ?us \<and> ?us ! length ts = t \<and> task_id t = x
        \<and> (\<forall>j < length ?us. length ts < j \<longrightarrow> task_id (?us ! j) \<noteq> x)" by simp
      then show "?rhs ?us" by blast
    qed
    with True show ?thesis by (auto simp: taskMap_snoc)
  next
    case False
    have "?rhs ?us \<longleftrightarrow> ?rhs ts"
    proof
      assume "?rhs ?us"
      then obtain i where i: "i < length ?us" "?us ! i = t" "task_id t = x"
        "\<forall>j < length ?us. i < j \<longrightarrow> task_id (?us ! j) \<noteq> x" by blast
      have "i \<noteq> length ts" using i(2,3) False by auto
      with i(1) have il: "i < length ts" by simp
      with i(2) have "ts ! i = t" by (simp add: nth_append)
      moreover have "\<forall>j < length ts. i < j \<longrightarrow> task_id (ts ! j) \<noteq> x"
      proof (intro allI impI)
        fix j assume j: "j < length ts" "i < j"
        with i(4) have "task_id (?us ! j) \<noteq> x" by simp
        with j(1) show "task_id (ts ! j) \<noteq> x" by (simp add: nth_append)
      qed
      ultimately show "?rhs ts" using il i(3) by blast
    next
      assume "?rhs ts"
      then obtain i where i: "i < length ts" "ts ! i = t" "task_id t = x"
        "\<forall>j < length ts. i < j \<longrightarrow> task_id (ts ! j) \<noteq> x" by blast
      have "\<forall>j < length ?us. i < j \<longrightarrow> task_id (?us ! j) \<noteq> x"
      proof (intro allI impI)
        fix j assume j: "j < length ?us" "i < j"
        show "task_id (?us ! j) \<noteq> x"
        proof (cases "j < length ts")
          case True
          with i(4) j(2) show ?thesis by (simp add: nth_append)
        next
          case False
          with j(1) have "j = length ts" by simp
          with \<open>x \<noteq> task_id u\<close> show ?thesis by simp
        qed
      qed
      moreover have "i < length ?us" "?us ! i = t" using i(1,2) by (simp_all add: nth_append)
      ultimately show "?rhs ?us" using i(3) by blast
    qed
    with False snoc.IH show ?thesis by (simp add: taskMap_snoc)
  qed
qed

lemma visit_from_map:
  assumes "visit n ts x st = Some st'" "\<forall>t \<in> set (result st). taskMap ts (task_id t) = Some t"
  shows "\<forall>t \<in> set (result st'). taskMap ts (task_id t) = Some t"
  using assms
proof (induction n arbitrary: x st st')
  case 0
  then show ?case by simp
next
  case (Suc n)
  show ?case
  proof (cases "x \<in> visiting st \<or> x \<in> tvisited st")
    case True
    from Suc.prems(1) have "st' = st" unfolding visit_seen[OF True] by simp
    with Suc.prems(2) show ?thesis by simp
  next
    case False
    define st1 where "st1 = st\<lparr>visiting := insert x (visiting st)\<rparr>"
    show ?thesis
    proof (cases "taskMap ts x")
      case None
      with False Suc.prems(1) have "st' = st1" by (auto simp: Let_def st1_def)
      with Suc.prems(2) show ?thesis by (simp add: st1_def)
    next
      case (Some task)
      then have task: "task_id task = x" by (auto dest: taskMap_SomeD)
      from Some False Suc.prems(1) obtain st2 where
        r: "forEach (visit n ts) (dependencies task) st1 = Some st2"
        and st': "st' = st2\<lparr>visiting := visiting st2 - {x},
                              tvisited := insert x (tvisited st2),
                              result := result st2 @ [task]\<rparr>"
        by (auto simp: Let_def st1_def split: option.splits)
      have "\<forall>t \<in> set (result st2). taskMap ts (task_id t) = Some t"
      proof (rule forEach_rule[OF r,
            where P = "\<lambda>pre s. \<forall>t \<in> set (result s). taskMap ts (task_id t) = Some t"])
        show "\<forall>t \<in> set (result st1). taskMap ts (task_id t) = Some t"
          using Suc.prems(2) by (simp add: st1_def)
      next
        fix d :: string and s s' :: topo
        assume "\<forall>t \<in> set (result s). taskMap ts (task_id t) = Some t"
          "visit n ts d s = Some s'"
        then show "\<forall>t \<in> set (result s'). taskMap ts (task_id t) = Some t"
          using Suc.IH[of d s s'] by simp
      qed
      with Some task show ?thesis by (simp add: st')
    qed
  qed
qed

lemma topologicalSort_last:
  "\<exists>r. topologicalSort ts = Some r \<and> distinct (map task_id r) \<and> set r \<subseteq> set ts
       \<and> set r = {ts ! i | i. i < length ts
                     \<and> (\<forall>j < length ts. i < j \<longrightarrow> task_id (ts ! j) \<noteq> task_id (ts ! i))}"
proof -
  let ?st0 = "\<lparr>tvisited = {}, visiting = {}, result = []\<rparr>"
  let ?n = "Suc (length (nodes ts))"
  obtain r where r: "topologicalSort ts = Some r" using topologicalSort_total by blast
  then obtain st' where run: "forEach (visit ?n ts) (map task_id ts) ?st0 = Some st'"
    and r': "r = result st'"
    by (auto simp: topologicalSort_def)
  have inv0: "topo_inv ts ?st0" by (simp add: topo_inv_def)
  have "topo_step ts ?st0 st' \<and> set (map task_id ts) \<subseteq> tvisited st'"
  proof (rule forEach_rule[OF run,
        where P = "\<lambda>pre s. topo_step ts ?st0 s \<and> set pre \<subseteq> tvisited s"])
    show "topo_step ts ?st0 ?st0 \<and> set [] \<subseteq> tvisited ?st0"
      using inv0 by (simp add: topo_step_refl)
  next
    fix pre :: "string list" and x :: string and s s' :: topo
    assume P: "topo_step ts ?st0 s \<and> set pre \<subseteq> tvisited s"
      and x: "x \<in> set (map task_id ts)" and v: "visit ?n ts x s = Some s'"
    from P have "topo_inv ts s" by (simp add: topo_step_def)
    from visit_inv[OF v this] x
    have st: "topo_step ts s s'" and xv: "x \<in> tvisited s' \<or> x \<in> visiting s" by auto
    from P x have "x \<notin> visiting s" by (auto simp: topo_step_def)
    with xv have "x \<in> tvisited s'" by simp
    moreover have "tvisited s \<subseteq> tvisited s'" using st by (simp add: topo_step_def)
    moreover have "topo_step ts ?st0 s'" using P st topo_step_trans by blast
    ultimately show "topo_step ts ?st0 s' \<and> set (pre @ [x]) \<subseteq> tvisited s'"
      using P by auto
  qed
  then have inv: "topo_inv ts st'" and all: "task_id ` set ts \<subseteq> tvisited st'"
    by (auto simp: topo_step_def)
  have d: "distinct (map task_id r)" and sub: "set r \<subseteq> set ts"
    and ids: "task_id ` set ts \<subseteq> task_id ` set r"
    using inv all by (auto simp: topo_inv_def r')
  have "\<forall>t \<in> set (result st'). taskMap ts (task_id t) = Some t"
  proof (rule forEach_rule[OF run,
        where P = "\<lambda>pre s. \<forall>t \<in> set (result s). taskMap ts (task_id t) = Some t"])
    show "\<forall>t \<in> set (result ?st0). taskMap ts (task_id t) = Some t" by simp
  next
    fix x :: string and s s' :: topo
    assume "\<forall>t \<in> set (result s). taskMap ts (task_id t) = Some t" "visit ?n ts x s = Some s'"
    then show "\<forall>t \<in> set (result s'). taskMap ts (task_id t) = Some t"
      using visit_from_map[of ?n ts x s s'] by simp
  qed
  then have last: "\<forall>t \<in> set r. taskMap ts (task_id t) = Some t" by (simp add: r')
  have eq: "set r = {t. taskMap ts (task_id t) = Some t}"
  proof (intro equalityI subsetI)
    fix t assume "t \<in> set r"
    with last show "t \<in> {t. taskMap ts (task_id t) = Some t}" by simp
  next
    fix t assume "t \<in> {t. taskMap ts (task_id t) = Some t}"
    then have t: "taskMap ts (task_id t) = Some t" by simp
    then have "t \<in> set ts" by (auto dest: taskMap_SomeD)
    with ids obtain u where u: "u \<in> set r" "task_id u = task_id t" by force
    with last have "taskMap ts (task_id t) = Some u" by auto
    with t u(1) show "t \<in> set r" by simp
  qed
  have "{t. taskMap ts (task_id t) = Some t}
        = {ts ! i | i. i < length ts
             \<and> (\<forall>j < length ts. i < j \<longrightarrow> task_id (ts ! j) \<noteq> task_id (ts ! i))}"
    unfolding taskMap_last by auto
  with eq r d sub show ?thesis by simp
qed

lemma topologicalSort_perm:
  assumes "distinct (map task_id ts)" "topologicalSort ts = Some r"
  shows "mset r = mset ts"
proof -
  from topologicalSort_last[of ts] assms(2)
  have d: "distinct (map task_id r)"
    and eq: "set r = {ts ! i | i. i < length ts
                     \<and> (\<forall>j < length ts. i < j \<longrightarrow> task_id (ts ! j) \<noteq> task_id (ts ! i))}"
    by auto
  have "set ts \<subseteq> set r"
  proof
    fix t assume "t \<in> set ts"
    then obtain i where i: "i < length ts" "ts ! i = t" by (auto simp: in_set_conv_nth)
    have "task_id (ts ! j) \<noteq> task_id (ts ! i)" if "j < length ts" "i < j" for j
    proof
      assume "task_id (ts ! j) = task_id (ts ! i)"
      with assms(1) i(1) that(1) have "j = i"
        by (metis length_map nth_eq_iff_index_eq nth_map)
      with that(2) show False by simp
    qed
    with i show "t \<in> set r" unfolding eq by blast
  qed
  moreover have "set r \<subseteq> set ts" unfolding eq by auto
  ultimately have "set r = set ts" by auto
  moreover have "distinct r" "distinct ts" using d assms(1) by (auto simp: distinct_map)
  ultimately show ?thesis by (simp add: set_eq_iff_mset_eq_distinct)
qed

lemma deps_first_Nil: "deps_first ts []"
  by (simp add: deps_first_def)

lemma deps_first_snoc:
  assumes "deps_first ts r"
    "\<forall>d \<in> set (dependencies t). d \<in> task_id ` set ts \<longrightarrow> d \<in> task_id ` set r"
  shows "deps_first ts (r @ [t])"
  unfolding deps_first_def
proof (intro allI impI ballI)
  fix i d
  assume i: "i < length (r @ [t])" and d: "d \<in> set (dependencies ((r @ [t]) ! i))"
    and id: "d \<in> task_id ` set ts"
  show "d \<in> task_id ` set (take i (r @ [t]))"
  proof (cases "i < length r")
    case True
    with d have "d \<in> set (dependencies (r ! i))" by (simp add: nth_append)
    with assms(1) True id have "d \<in> task_id ` set (take i r)" by (simp add: deps_first_def)
    with True show ?thesis by simp
  next
    case False
    with i have "i = length r" by simp
    with d assms(2) id show ?thesis by simp
  qed
qed

lemma visit_order:
  assumes ac: "acyclic (dep_edges ts)"
    and "visit n ts x st = Some st'" "topo_inv ts st" "deps_first ts (result st)"
    "\<forall>a \<in> visiting st \<inter> task_id ` set ts. (a, x) \<in> (dep_edges ts)\<^sup>+"
  shows "deps_first ts (result st') \<and> (x \<in> task_id ` set ts \<longrightarrow> x \<in> tvisited st')"
  using assms(2-)
proof (induction n arbitrary: x st st')
  case 0
  then show ?case by simp
next
  case (Suc n)
  let ?R = "dep_edges ts"
  let ?ids = "task_id ` set ts"
  have notin: "x \<in> ?ids \<Longrightarrow> x \<notin> visiting st"
  proof
    assume "x \<in> ?ids" "x \<in> visiting st"
    with Suc.prems(4) have "(x, x) \<in> ?R\<^sup>+" by auto
    with ac show False by (auto simp: acyclic_def)
  qed
  show ?case
  proof (cases "x \<in> visiting st \<or> x \<in> tvisited st")
    case True
    from Suc.prems(1) have "st' = st" unfolding visit_seen[OF True] by simp
    with True Suc.prems(3) notin show ?thesis by auto
  next
    case False
    define st1 where "st1 = st\<lparr>visiting := insert x (visiting st)\<rparr>"
    have inv1: "topo_inv ts st1" using Suc.prems(2) False by (auto simp: st1_def topo_inv_def)
    show ?thesis
    proof (cases "taskMap ts x")
      case None
      with False Suc.prems(1) have "st' = st1" by (auto simp: Let_def st1_def)
      moreover have "x \<notin> ?ids" using None by (rule taskMap_None)
      ultimately show ?thesis using Suc.prems(3) by (simp add: st1_def)
    next
      case (Some task)
      then have task: "task \<in> set ts" "task_id task = x" by (auto dest: taskMap_SomeD)
      from Some False Suc.prems(1) obtain st2 where
        r: "forEach (visit n ts) (dependencies task) st1 = Some st2"
        and st': "st' = st2\<lparr>visiting := visiting st2 - {x},
                              tvisited := insert x (tvisited st2),
                              result := result st2 @ [task]\<rparr>"
        by (auto simp: Let_def st1_def split: option.splits)
      have loop: "topo_step ts st1 st2 \<and> deps_first ts (result st2) \<and>
            (\<forall>d \<in> set (dependencies task). d \<in> ?ids \<longrightarrow> d \<in> tvisited st2)"
      proof (rule forEach_rule[OF r, where P = "\<lambda>pre s. topo_step ts st1 s \<and>
            deps_first ts (result s) \<and> (\<forall>d \<in> set pre. d \<in> ?ids \<longrightarrow> d \<in> tvisited s)"])
        show "topo_step ts st1 st1 \<and> deps_first ts (result st1) \<and>
            (\<forall>d \<in> set []. d \<in> ?ids \<longrightarrow> d \<in> tvisited st1)"
          using inv1 Suc.prems(3) by (simp add: topo_step_refl st1_def)
      next
        fix pre :: "string list" and d :: string and s s' :: topo
        assume P: "topo_step ts st1 s \<and> deps_first ts (result s) \<and>
            (\<forall>d \<in> set pre. d \<in> ?ids \<longrightarrow> d \<in> tvisited s)"
          and d: "d \<in> set (dependencies task)" and v: "visit n ts d s = Some s'"
        from P have invs: "topo_inv ts s" and vs: "visiting s \<inter> ?ids \<subseteq> insert x (visiting st)"
          by (auto simp: topo_step_def st1_def)
        have e: "(x, d) \<in> ?R" using task d by (auto simp: dep_edges_iff)
        have anc: "\<forall>a \<in> visiting s \<inter> ?ids. (a, d) \<in> ?R\<^sup>+"
        proof
          fix a assume a: "a \<in> visiting s \<inter> ?ids"
          show "(a, d) \<in> ?R\<^sup>+"
          proof (cases "a = x")
            case True
            with e show ?thesis by auto
          next
            case False
            with a vs have "a \<in> visiting st \<inter> ?ids" by auto
            with Suc.prems(4) have "(a, x) \<in> ?R\<^sup>+" by simp
            then show ?thesis using e by (rule trancl_into_trancl)
          qed
        qed
        from P have rs: "deps_first ts (result s)" by simp
        from Suc.IH[OF v invs rs anc]
        have o: "deps_first ts (result s')" "d \<in> ?ids \<longrightarrow> d \<in> tvisited s'" by auto
        from visit_inv[OF v invs] have st: "topo_step ts s s'" by simp
        then have mono: "tvisited s \<subseteq> tvisited s'" by (simp add: topo_step_def)
        have "topo_step ts st1 s'" using P st topo_step_trans by blast
        moreover have "\<forall>d \<in> set (pre @ [d]). d \<in> ?ids \<longrightarrow> d \<in> tvisited s'"
          using P o(2) mono by auto
        ultimately show "topo_step ts st1 s' \<and> deps_first ts (result s') \<and>
            (\<forall>d \<in> set (pre @ [d]). d \<in> ?ids \<longrightarrow> d \<in> tvisited s')"
          using o(1) by simp
      qed
      then have "topo_inv ts st2" by (simp add: topo_step_def)
      then have "tvisited st2 = task_id ` set (result st2)" by (simp add: topo_inv_def)
      with loop have "deps_first ts (result st2 @ [task])"
        by (intro deps_first_snoc) auto
      then show ?thesis by (simp add: st')
    qed
  qed
qed

lemma topologicalSort_order:
  assumes "acyclic (dep_edges ts)" "topologicalSort ts = Some r"
  shows "\<forall>i j. i < length r \<and> j < length r \<and>
                task_id (r ! j) \<in> set (dependencies (r ! i)) \<longrightarrow> j < i"
proof -
  let ?st0 = "\<lparr>tvisited = {}, visiting = {}, result = []\<rparr>"
  let ?n = "Suc (length (nodes ts))"
  let ?ids = "task_id ` set ts"
  from topologicalSort_last[of ts] assms(2)
  have dist: "distinct (map task_id r)" and sub: "set r \<subseteq> set ts" by auto
  from assms(2) obtain st' where run: "forEach (visit ?n ts) (map task_id ts) ?st0 = Some st'"
    and r': "r = result st'"
    by (auto simp: topologicalSort_def)
  have inv0: "topo_inv ts ?st0" by (simp add: topo_inv_def)
  have "topo_step ts ?st0 st' \<and> deps_first ts (result st')"
  proof (rule forEach_rule[OF run,
        where P = "\<lambda>pre s. topo_step ts ?st0 s \<and> deps_first ts (result s)"])
    show "topo_step ts ?st0 ?st0 \<and> deps_first ts (result ?st0)"
      using inv0 by (simp add: topo_step_refl deps_first_Nil)
  next
    fix x :: string and s s' :: topo
    assume P: "topo_step ts ?st0 s \<and> deps_first ts (result s)"
      and v: "visit ?n ts x s = Some s'"
    from P have invs: "topo_inv ts s" and "visiting s \<inter> ?ids = {}"
      by (auto simp: topo_step_def)
    then have anc: "\<forall>a \<in> visiting s \<inter> ?ids. (a, x) \<in> (dep_edges ts)\<^sup>+" by simp
    from P have rs: "deps_first ts (result s)" by simp
    from visit_order[OF assms(1) v invs rs anc] have "deps_first ts (result s')" by simp
    moreover from visit_inv[OF v invs] have "topo_step ts s s'" by simp
    with P have "topo_step ts ?st0 s'" using topo_step_trans by blast
    ultimately show "topo_step ts ?st0 s' \<and> deps_first ts (result s')" by simp
  qed
  then have resp: "deps_first ts r" by (simp add: r')
  have "j < i" if ij: "i < length r" "j < length r"
    and dep: "task_id (r ! j) \<in> set (dependencies (r ! i))" for i j
  proof -
    have "r ! j \<in> set ts" using ij(2) sub by auto
    then have "task_id (r ! j) \<in> ?ids" by simp
    with resp ij(1) dep have "task_id (r ! j) \<in> task_id ` set (take i r)"
      unfolding deps_first_def by blast
    then obtain k where k: "k < i" "k < length r" "task_id (r ! k) = task_id (r ! j)"
      using ij(1) by (auto simp: in_set_conv_nth)
    with dist ij(2) have "k = j"
      by (metis length_map nth_eq_iff_index_eq nth_map)
    with k show ?thesis by simp
  qed
  then show ?thesis by blast
qed
section \<open>Executable tasks\<close>

lemma find_None_iff_ids: "find (\<lambda>u. task_id u = d) ts = None \<longleftrightarrow> d \<notin> task_id ` set ts"
  by (induction ts) auto

lemma first_completed_iff:
  "(case find (\<lambda>u. task_id u = d) ts of None \<Rightarrow> False
    | Some u \<Rightarrow> task_status u = Completed)
   \<longleftrightarrow> (\<exists>i < length ts. task_id (ts ! i) = d \<and> task_status (ts ! i) = Completed
          \<and> (\<forall>j < i. task_id (ts ! j) \<noteq> d))"
proof (cases "find (\<lambda>u. task_id u = d) ts")
  case None
  then have "\<forall>i < length ts. task_id (ts ! i) \<noteq> d"
    by (simp add: find_None_iff)
  with None show ?thesis by auto
next
  case (Some u)
  then obtain i where i: "i < length ts" "task_id (ts ! i) = d" "u = ts ! i"
    "\<forall>j < i. task_id (ts ! j) \<noteq> d"
    unfolding find_Some_iff by blast
  have "k = i" if "k < length ts" "task_id (ts ! k) = d" "\<forall>j < k. task_id (ts ! j) \<noteq> d" for k
  proof (rule ccontr)
    assume "k \<noteq> i"
    then have "k < i \<or> i < k" by auto
    with that i show False by auto
  qed
  with i have "(\<exists>k < length ts. task_id (ts ! k) = d \<and> task_status (ts ! k) = Completed
          \<and> (\<forall>j < k. task_id (ts ! j) \<noteq> d)) \<longleftrightarrow> task_status u = Completed"
    by blast
  with Some show ?thesis by simp
qed

lemma canExecuteTask_first:
  "canExecuteTask t p \<longleftrightarrow>
     (\<forall>d \<in> set (dependencies t).
        \<exists>i < length (tasks p). task_id (tasks p ! i) = d
           \<and> task_status (tasks p ! i) = Completed
           \<and> (\<forall>j < i. task_id (tasks p ! j) \<noteq> d))"
  by (cases "dependencies t")
     (simp_all add: canExecuteTask_def list_all_iff first_completed_iff)

lemma first_is_only:
  assumes "distinct (map task_id ts)"
  shows "(\<exists>i < length ts. task_id (ts ! i) = d \<and> task_status (ts ! i) = Completed
          \<and> (\<forall>j < i. task_id (ts ! j) \<noteq> d))
         \<longleftrightarrow> (\<exists>u \<in> set ts. task_id u = d \<and> task_status u = Completed)"
proof
  assume "\<exists>i < length ts. task_id (ts ! i) = d \<and> task_status (ts ! i) = Completed
          \<and> (\<forall>j < i. task_id (ts ! j) \<noteq> d)"
  then show "\<exists>u \<in> set ts. task_id u = d \<and> task_status u = Completed"
    by (auto intro: nth_mem)
next
  assume "\<exists>u \<in> set ts. task_id u = d \<and> task_status u = Completed"
  then obtain i where i: "i < length ts" "task_id (ts ! i) = d" "task_status (ts ! i) = Completed"
    by (auto simp: in_set_conv_nth)
  have "task_id (ts ! j) \<noteq> d" if "j < i" for j
  proof
    assume "task_id (ts ! j) = d"
    with i(1,2) that have "j < length ts" "task_id (ts ! j) = task_id (ts ! i)" by simp_all
    with assms i(1) have "j = i"
      by (metis length_map nth_eq_iff_index_eq nth_map)
    with that show False by simp
  qed
  with i show "\<exists>i < length ts. task_id (ts ! i) = d \<and> task_status (ts ! i) = Completed
          \<and> (\<forall>j < i. task_id (ts ! j) \<noteq> d)" by blast
qed

lemma completed_ids_iff:
  "d \<in> set (map task_id (filter (\<lambda>task. task_status task = Completed) ts))
     \<longleftrightarrow> (\<exists>u \<in> set ts. task_id u = d \<and> task_status u = Completed)"
  by auto

text \<open>
  C8, as the code has it. For every plan, \<^verbatim>\<open>getExecutableTasks\<close> returns, in the order
  of the plan, exactly the tasks whose status is \<^verbatim>\<open>pending\<close> and each of whose
  dependency ids is the id of a task of the plan, the first task with that id having
  the status \<^verbatim>\<open>completed\<close>. A pending task without dependencies is always returned; a
  pending task is never returned when the first task with the id of one of its
  dependencies is not completed (failed, for one), or when a dependency is the id of no
  task. The result is a function of the plan alone, which the call leaves as it is.
  \<^verbatim>\<open>getExecutableTaskIds\<close> returns the ids of the pending tasks each of whose dependency
  ids is the id of some completed task. When the ids of the plan are distinct, "the
  first task with that id" is the one task with that id, and the two functions select
  the same tasks.
\<close>

theorem getExecutableTasks_exact:
  "getExecutableTasks p =
     filter (\<lambda>t. task_status t = Pending \<and>
                 (\<forall>d \<in> set (dependencies t).
                    \<exists>i < length (tasks p). task_id (tasks p ! i) = d
                       \<and> task_status (tasks p ! i) = Completed
                       \<and> (\<forall>j < i. task_id (tasks p ! j) \<noteq> d)))
       (tasks p)
   \<and> (\<forall>t \<in> set (tasks p). task_status t = Pending \<and> dependencies t = []
         \<longrightarrow> t \<in> set (getExecutableTasks p))
   \<and> (\<forall>t \<in> set (tasks p). \<forall>i < length (tasks p).
         task_id (tasks p ! i) \<in> set (dependencies t)
         \<and> task_status (tasks p ! i) \<noteq> Completed
         \<and> (\<forall>j < i. task_id (tasks p ! j) \<noteq> task_id (tasks p ! i))
         \<longrightarrow> t \<notin> set (getExecutableTasks p))
   \<and> (\<forall>t \<in> set (tasks p). \<forall>d \<in> set (dependencies t).
         d \<notin> task_id ` set (tasks p) \<longrightarrow> t \<notin> set (getExecutableTasks p))
   \<and> getExecutableTaskIds p =
       map task_id
         (filter (\<lambda>t. task_status t = Pending \<and>
                     (\<forall>d \<in> set (dependencies t).
                        \<exists>u \<in> set (tasks p). task_id u = d \<and> task_status u = Completed))
            (tasks p))
   \<and> (distinct (map task_id (tasks p)) \<longrightarrow>
        getExecutableTasks p =
          filter (\<lambda>t. task_status t = Pending \<and>
                      (\<forall>d \<in> set (dependencies t).
                         \<exists>u \<in> set (tasks p). task_id u = d \<and> task_status u = Completed))
            (tasks p)
        \<and> (\<forall>t \<in> set (tasks p). \<forall>u \<in> set (tasks p).
              task_id u \<in> set (dependencies t) \<and> task_status u \<noteq> Completed
              \<longrightarrow> t \<notin> set (getExecutableTasks p))
        \<and> getExecutableTaskIds p = map task_id (getExecutableTasks p))"
proof -
  let ?first = "\<lambda>d. \<exists>i < length (tasks p). task_id (tasks p ! i) = d
                       \<and> task_status (tasks p ! i) = Completed
                       \<and> (\<forall>j < i. task_id (tasks p ! j) \<noteq> d)"
  let ?some = "\<lambda>d. \<exists>u \<in> set (tasks p). task_id u = d \<and> task_status u = Completed"
  have sel: "getExecutableTasks p =
      filter (\<lambda>t. task_status t = Pending \<and> (\<forall>d \<in> set (dependencies t). ?first d)) (tasks p)"
    by (simp add: getExecutableTasks_def canExecuteTask_first)
  have mem: "t \<in> set (getExecutableTasks p) \<longleftrightarrow>
      t \<in> set (tasks p) \<and> task_status t = Pending \<and> (\<forall>d \<in> set (dependencies t). ?first d)"
    for t
    unfolding sel by auto
  have none: "\<forall>t \<in> set (tasks p). task_status t = Pending \<and> dependencies t = []
         \<longrightarrow> t \<in> set (getExecutableTasks p)"
    by (simp add: mem)
  have blocked: "t \<notin> set (getExecutableTasks p)"
    if "t \<in> set (tasks p)" "i < length (tasks p)"
      "task_id (tasks p ! i) \<in> set (dependencies t)" "task_status (tasks p ! i) \<noteq> Completed"
      "\<forall>j < i. task_id (tasks p ! j) \<noteq> task_id (tasks p ! i)" for t i
  proof
    assume "t \<in> set (getExecutableTasks p)"
    with that(3) obtain k where k: "k < length (tasks p)"
      "task_id (tasks p ! k) = task_id (tasks p ! i)" "task_status (tasks p ! k) = Completed"
      "\<forall>j < k. task_id (tasks p ! j) \<noteq> task_id (tasks p ! i)"
      unfolding mem by blast
    have "k = i"
    proof (rule ccontr)
      assume "k \<noteq> i"
      then have "k < i \<or> i < k" by auto
      with k(2,4) that(5) show False by auto
    qed
    with k(3) that(4) show False by simp
  qed
  have dangling: "t \<notin> set (getExecutableTasks p)"
    if "t \<in> set (tasks p)" "d \<in> set (dependencies t)" "d \<notin> task_id ` set (tasks p)" for t d
  proof
    assume "t \<in> set (getExecutableTasks p)"
    with that(2) obtain k where "k < length (tasks p)" "task_id (tasks p ! k) = d"
      unfolding mem by blast
    with that(3) show False by (metis image_eqI nth_mem)
  qed
  have ids: "getExecutableTaskIds p =
       map task_id
         (filter (\<lambda>t. task_status t = Pending \<and> (\<forall>d \<in> set (dependencies t). ?some d))
            (tasks p))"
    unfolding getExecutableTaskIds_def Let_def list_all_iff completed_ids_iff
    by (simp add: conj_commute)
  have uniq: "getExecutableTasks p =
          filter (\<lambda>t. task_status t = Pending \<and> (\<forall>d \<in> set (dependencies t). ?some d))
            (tasks p)
        \<and> (\<forall>t \<in> set (tasks p). \<forall>u \<in> set (tasks p).
              task_id u \<in> set (dependencies t) \<and> task_status u \<noteq> Completed
              \<longrightarrow> t \<notin> set (getExecutableTasks p))
        \<and> getExecutableTaskIds p = map task_id (getExecutableTasks p)"
    if dist: "distinct (map task_id (tasks p))"
  proof -
    have same: "?first d \<longleftrightarrow> ?some d" for d
      using first_is_only[OF dist] .
    have sel': "getExecutableTasks p =
          filter (\<lambda>t. task_status t = Pending \<and> (\<forall>d \<in> set (dependencies t). ?some d))
            (tasks p)"
      unfolding sel same ..
    have "t \<notin> set (getExecutableTasks p)"
      if "t \<in> set (tasks p)" "u \<in> set (tasks p)" "task_id u \<in> set (dependencies t)"
        "task_status u \<noteq> Completed" for t u
    proof
      assume "t \<in> set (getExecutableTasks p)"
      with that(3) obtain v where v: "v \<in> set (tasks p)" "task_id v = task_id u"
        "task_status v = Completed" unfolding sel' by auto
      have "inj_on task_id (set (tasks p))" using dist by (simp add: distinct_map)
      with v(1,2) that(2) have "v = u" by (auto dest: inj_onD)
      with v(3) that(4) show False by simp
    qed
    with sel' ids show ?thesis by simp
  qed
  show ?thesis
    apply (intro conjI ballI allI impI)
    subgoal by (rule sel)
    subgoal using none by blast
    subgoal using blocked by blast
    subgoal using dangling by blast
    subgoal by (rule ids)
    subgoal using uniq by blast
    subgoal using uniq by blast
    subgoal using uniq by blast
    done
qed

theorem getExecutableTasks_exact_witness:
  "distinct (map task_id (tasks (planAB Pending)))
   \<and> getExecutableTasks (planAB Pending) = [node ''A'' [] Pending]
   \<and> getExecutableTasks (planAB Completed) = [node ''B'' [''A''] Pending]
   \<and> getExecutableTasks (planAB Failed) = []
   \<and> getExecutableTaskIds (planAB Completed) = [''B'']
   \<and> getExecutableTasks repeatedA = [node ''A'' [] Pending]
   \<and> getExecutableTaskIds repeatedA = [''A'', ''C'']"
proof -
  have d: "distinct (map task_id (tasks (planAB s)))" for s
    by (simp add: planAB_def plan_of_def node_def)
  have run: "getExecutableTasks (planAB Pending) = [node ''A'' [] Pending]"
    "getExecutableTasks (planAB Completed) = [node ''B'' [''A''] Pending]"
    "getExecutableTasks (planAB Failed) = []"
    "getExecutableTaskIds (planAB Completed) = [''B'']"
    "getExecutableTasks repeatedA = [node ''A'' [] Pending]"
    "getExecutableTaskIds repeatedA = [''A'', ''C'']"
    by code_simp+
  from getExecutableTasks_exact[of "planAB Completed"] d run show ?thesis by simp
qed

theorem getExecutableTasks_first_of_repeated_id:
  "tasks repeatedA ! 1 = node ''A'' [] Completed
   \<and> tasks repeatedA ! 2 = node ''C'' [''A''] Pending
   \<and> length (tasks repeatedA) = 3
   \<and> getExecutableTasks repeatedA = [node ''A'' [] Pending]
   \<and> getExecutableTaskIds repeatedA = [''A'', ''C'']"
  by code_simp

section \<open>The plan mutator\<close>

lemma removeTask_in_range:
  assumes "0 \<le> i" "i < int (length (tasks p))"
  shows "tasks (removeTask h p i) =
           map (\<lambda>task. task\<lparr>dependencies :=
                  filter (\<lambda>depId. depId \<noteq> task_id (tasks p ! nat i)) (dependencies task)\<rparr>)
             (take (nat i) (tasks p) @ drop (Suc (nat i)) (tasks p))"
  using assms by (simp add: removeTask_def Let_def)

text \<open>
  C5. For every plan and every index in range, after \<^verbatim>\<open>removeTask\<close> the id of the
  removed task occurs in the dependencies of no task left in the plan; the tasks left
  are the others, in their order, and \<^verbatim>\<open>updated\<close> is the time of the call.
\<close>

theorem removeTask_strips_removed_id:
  assumes "0 \<le> i" "i < int (length (tasks p))"
  shows "(\<forall>t \<in> set (tasks (removeTask h p i)).
            task_id (tasks p ! nat i) \<notin> set (dependencies t))
         \<and> map task_id (tasks (removeTask h p i)) =
             map task_id (take (nat i) (tasks p) @ drop (Suc (nat i)) (tasks p))
         \<and> updated (removeTask h p i) = now h"
proof -
  have "updated (removeTask h p i) = now h"
    using assms by (simp add: removeTask_def Let_def)
  then show ?thesis
    unfolding removeTask_in_range[OF assms] by (auto simp: comp_def)
qed

theorem removeTask_strips_removed_id_witness:
  "(0::int) \<le> 0 \<and> (0::int) < int (length (tasks (planAB Pending)))
   \<and> tasks (removeTask host0 (planAB Pending) 0) = [node ''B'' [] Pending]
   \<and> updated (removeTask host0 (planAB Pending) 0) = Date ''2024-05-01T10:00:00.000Z''"
  using removeTask_strips_removed_id[of 0 "planAB Pending" host0]
  by (simp add: removeTask_def planAB_def plan_of_def node_def host0_def)

lemma update_first_find:
  assumes "find P xs = Some x"
  shows "\<exists>i < length xs. xs ! i = x \<and> P x \<and> (\<forall>j < i. \<not> P (xs ! j))
           \<and> update_first P f xs = xs[i := f x]"
  using assms
proof (induction xs)
  case Nil
  then show ?case by simp
next
  case (Cons y ys)
  show ?case
  proof (cases "P y")
    case True
    with Cons.prems have "y = x" by simp
    with True show ?thesis by (intro exI[of _ 0]) simp
  next
    case False
    with Cons.prems have "find P ys = Some x" by simp
    from Cons.IH[OF this] obtain i where i: "i < length ys" "ys ! i = x" "P x"
      "\<forall>j < i. \<not> P (ys ! j)" "update_first P f ys = ys[i := f x]" by blast
    have "\<forall>j < Suc i. \<not> P ((y # ys) ! j)"
      using False i(4) by (auto simp: less_Suc_eq_0_disj)
    with i False show ?thesis by (intro exI[of _ "Suc i"]) simp
  qed
qed

text \<open>
  C10. For every plan, every task id present among the ids of its tasks and every
  status \<open>s\<close>, \<^verbatim>\<open>updateTaskStatus\<close> sets the status of the first task with that id to
  \<open>s\<close>, whatever its status was (the statement has no hypothesis on it: a completed task
  goes back to pending or to failed as well), changes nothing else of the tasks, and
  sets \<^verbatim>\<open>updated\<close> to the time of the call.
\<close>

theorem updateTaskStatus_sets_any_status:
  assumes "taskId \<in> task_id ` set (tasks p)"
  shows "\<exists>i < length (tasks p).
           task_id (tasks p ! i) = taskId
           \<and> (\<forall>j < i. task_id (tasks p ! j) \<noteq> taskId)
           \<and> tasks (updateTaskStatus h p taskId s) = (tasks p)[i := (tasks p ! i)\<lparr>task_status := s\<rparr>]
           \<and> task_status (tasks (updateTaskStatus h p taskId s) ! i) = s
           \<and> updated (updateTaskStatus h p taskId s) = now h"
proof -
  from assms obtain t where t: "find (\<lambda>u. task_id u = taskId) (tasks p) = Some t"
    by (cases "find (\<lambda>u. task_id u = taskId) (tasks p)") (auto simp: find_None_iff_ids)
  from update_first_find[OF t, of "\<lambda>u. u\<lparr>task_status := s\<rparr>"]
  obtain i where i: "i < length (tasks p)" "tasks p ! i = t" "task_id t = taskId"
    "\<forall>j < i. task_id (tasks p ! j) \<noteq> taskId"
    "update_first (\<lambda>u. task_id u = taskId) (\<lambda>u. u\<lparr>task_status := s\<rparr>) (tasks p)
       = (tasks p)[i := t\<lparr>task_status := s\<rparr>]"
    by blast
  have "tasks (updateTaskStatus h p taskId s) = (tasks p)[i := (tasks p ! i)\<lparr>task_status := s\<rparr>]"
    "updated (updateTaskStatus h p taskId s) = now h"
    using t i(2,5) by (simp_all add: updateTaskStatus_def)
  with i show ?thesis by (intro exI[of _ i]) simp
qed

theorem updateTaskStatus_sets_any_status_witness:
  "''A'' \<in> task_id ` set (tasks (planAB Completed))
   \<and> updateTaskStatus host0 (planAB Completed) ''A'' Pending
       = (planAB Pending)\<lparr>updated := Date ''2024-05-01T10:00:00.000Z''\<rparr>
   \<and> updateTaskStatus host0 (planAB Completed) ''A'' Failed
       = (planAB Failed)\<lparr>updated := Date ''2024-05-01T10:00:00.000Z''\<rparr>"
  using updateTaskStatus_sets_any_status[of "''A''" "planAB Completed" host0 Pending]
  by (simp add: updateTaskStatus_def planAB_def plan_of_def node_def host0_def)

text \<open>
  C7. For every plan: \<^verbatim>\<open>modifyTask\<close> and \<^verbatim>\<open>removeTask\<close> with an index out of range, and
  \<^verbatim>\<open>updateTaskStatus\<close> with an id that no task of the plan has, return the plan they
  were given, every field as it was (the tasks, their statuses and \<^verbatim>\<open>updated\<close>
  included).
\<close>

theorem invalid_reference_is_noop:
  "(i < 0 \<or> int (length (tasks p)) \<le> i
      \<longrightarrow> modifyTask h p i response = Returns p \<and> removeTask h p i = p)
   \<and> (taskId \<notin> task_id ` set (tasks p) \<longrightarrow> updateTaskStatus h p taskId s = p)"
proof -
  have "updateTaskStatus h p taskId s = p" if "taskId \<notin> task_id ` set (tasks p)"
  proof -
    from that have "find (\<lambda>t. task_id t = taskId) (tasks p) = None"
      by (simp add: find_None_iff_ids)
    then show ?thesis by (simp add: updateTaskStatus_def)
  qed
  then show ?thesis by (auto simp: modifyTask_def removeTask_def)
qed

theorem invalid_reference_is_noop_witness:
  "modifyTask host0 (planAB Pending) 2 answer_with_id = Returns (planAB Pending)
   \<and> modifyTask host0 (planAB Pending) (- 1) answer_with_id = Returns (planAB Pending)
   \<and> removeTask host0 (planAB Pending) 2 = planAB Pending
   \<and> removeTask host0 (planAB Pending) (- 1) = planAB Pending
   \<and> ''Z'' \<notin> task_id ` set (tasks (planAB Pending))
   \<and> updateTaskStatus host0 (planAB Pending) ''Z'' Completed = planAB Pending"
proof -
  have len: "int (length (tasks (planAB Pending))) \<le> 2"
    and z: "''Z'' \<notin> task_id ` set (tasks (planAB Pending))"
    by (simp_all add: planAB_def plan_of_def node_def)
  show ?thesis
    using len z
      invalid_reference_is_noop[of 2 "planAB Pending" host0 answer_with_id "''Z''" Completed]
      invalid_reference_is_noop[of "- 1" "planAB Pending" host0 answer_with_id "''Z''" Completed]
    by simp
qed

lemma read_Task_id:
  assumes "read_Task obj = Some task" "obj ''id'' = Some (JStr i)"
  shows "task_id task = i"
  using assms
  by (auto simp: read_Task_def as_string_def split: option.splits prod.splits json.splits)

lemma spread_task_id: "spread_task t modifiedTask ''id'' = Some (JStr (task_id t))"
  by (simp add: spread_task_def)

lemma spread_task_other:
  assumes "k \<noteq> ''id''"
  shows "spread_task t modifiedTask k =
           (case map_of (own_props modifiedTask) k of
              Some v \<Rightarrow> Some v
            | None \<Rightarrow> map_of (task_props t) k)"
  using assms by (simp add: spread_task_def map_add_def)

lemma strings_of_map_JStr: "strings_of (map JStr xs) = Some xs"
  by (simp add: strings_of_def list_all_iff comp_def)

lemma as_status_text: "as_status (Some (JStr (status_text s))) = Some s"
  by (cases s) (simp_all add: as_status_def status_text_def)

lemma as_priority_text: "as_priority (Some (JStr (priority_text p))) = Some p"
  by (cases p) (simp_all add: as_priority_def priority_text_def)

lemma Task_object_keys:
  "Task_object t ''id'' = Some (JStr (task_id t))"
  "Task_object t ''title'' = Some (JStr (task_title t))"
  "Task_object t ''description'' = Some (JStr (task_description t))"
  "Task_object t ''files'' = Some (JArr (map JStr (files t)))"
  "Task_object t ''dependencies'' = Some (JArr (map JStr (dependencies t)))"
  "Task_object t ''status'' = Some (JStr (status_text (task_status t)))"
  "Task_object t ''estimatedTime'' = Some (JStr (estimatedTime t))"
  "Task_object t ''priority'' = Some (JStr (priority_text (priority t)))"
  "Task_object t ''code'' = map_option JStr (code t)"
  by (simp_all add: Task_object_def task_props_def split: option.splits)

lemma read_Task_object: "read_Task (Task_object t) = Some t"
  by (simp add: read_Task_def Task_object_keys as_string_def as_strings_def
        strings_of_map_JStr as_status_text as_priority_text as_code_def split: option.splits)

lemma read_Tasks_objects: "read_Tasks (map Task_object ts) = Some ts"
  by (induction ts) (simp_all add: read_Task_object)

lemma read_Plan_object: "read_Plan (Plan_object p) = Some p"
  by (simp add: read_Plan_def Plan_object_def read_Tasks_objects)

lemma read_Tasks_update:
  assumes "i < length ts"
  shows "read_Tasks ((map Task_object ts)[i := obj]) =
           (case read_Task obj of None \<Rightarrow> None | Some t \<Rightarrow> Some (ts[i := t]))"
  using assms
proof (induction ts arbitrary: i)
  case Nil
  then show ?case by simp
next
  case (Cons u us)
  show ?case
  proof (cases i)
    case 0
    then show ?thesis by (simp add: read_Tasks_objects split: option.splits)
  next
    case (Suc k)
    with Cons.prems have "k < length us" by simp
    from Cons.IH[OF this] Suc show ?thesis
      by (simp add: read_Task_object split: option.splits)
  qed
qed

lemma modifyTask_reads_object:
  "modifyTask h p i response =
     (case read_Plan (modifyTask_object h p i response) of
        Some p' \<Rightarrow> Returns p'
      | None \<Rightarrow> Untyped)"
proof (cases "i < 0 \<or> int (length (tasks p)) \<le> i")
  case True
  then show ?thesis
    by (auto simp: modifyTask_def modifyTask_object_def read_Plan_object)
next
  case False
  then have i: "nat i < length (tasks p)" by auto
  show ?thesis
  proof (cases "JSON_parse h (case brace_match response of Some jsonMatch \<Rightarrow> jsonMatch
                                                         | None \<Rightarrow> response)")
    case None
    with False show ?thesis
      by (auto simp: modifyTask_def modifyTask_object_def read_Plan_object)
  next
    case (Some m)
    with False show ?thesis
      by (auto simp: modifyTask_def modifyTask_object_def read_Plan_def Plan_object_def
            read_Tasks_update[OF i] split: option.splits)
  qed
qed

text \<open>
  C6. For every plan, every index in range and every answer of the model, whatever the
  value it parses to carries (an \<^verbatim>\<open>id\<close> included, and values outside the types of the
  fields too): in the plan \<^verbatim>\<open>modifyTask\<close> returns, the task at the index has the \<^verbatim>\<open>id\<close>
  it had before the call, and every other key of it holds the replacement's value when
  the replacement has that key and the task's own value otherwise (a shallow merge);
  every other task is as it was. An answer \<^verbatim>\<open>JSON.parse\<close> rejects leaves the whole plan
  as it was. Read at the type \<^verbatim>\<open>Plan\<close>, the returned plan has the same task ids at the
  same indices.
\<close>

theorem modifyTask_preserves_id:
  assumes "0 \<le> i" "i < int (length (tasks p))"
  shows "length (object_tasks (modifyTask_object h p i response)) = length (tasks p)
   \<and> (object_tasks (modifyTask_object h p i response) ! nat i) ''id''
       = Some (JStr (task_id (tasks p ! nat i)))
   \<and> (\<forall>j < length (tasks p). j \<noteq> nat i \<longrightarrow>
         object_tasks (modifyTask_object h p i response) ! j = Task_object (tasks p ! j))
   \<and> (\<forall>modifiedTask k.
         JSON_parse h (case brace_match response of Some jsonMatch \<Rightarrow> jsonMatch
                                                   | None \<Rightarrow> response) = Some modifiedTask
         \<and> k \<noteq> ''id'' \<longrightarrow>
         (object_tasks (modifyTask_object h p i response) ! nat i) k =
           (case map_of (own_props modifiedTask) k of
              Some v \<Rightarrow> Some v
            | None \<Rightarrow> Task_object (tasks p ! nat i) k))
   \<and> (JSON_parse h (case brace_match response of Some jsonMatch \<Rightarrow> jsonMatch
                                                 | None \<Rightarrow> response) = None
        \<longrightarrow> modifyTask_object h p i response = Plan_object p)
   \<and> modifyTask h p i response =
       (case read_Plan (modifyTask_object h p i response) of
          Some p' \<Rightarrow> Returns p'
        | None \<Rightarrow> Untyped)
   \<and> (\<forall>p'. modifyTask h p i response = Returns p' \<longrightarrow>
         map task_id (tasks p') = map task_id (tasks p)
         \<and> (\<forall>j < length (tasks p). j \<noteq> nat i \<longrightarrow> tasks p' ! j = tasks p ! j))"
proof -
  let ?text = "case brace_match response of Some jsonMatch \<Rightarrow> jsonMatch | None \<Rightarrow> response"
  let ?obj = "modifyTask_object h p i response"
  from assms have i: "nat i < length (tasks p)" and rng: "\<not> (i < 0 \<or> int (length (tasks p)) \<le> i)"
    by auto
  have len: "length (object_tasks ?obj) = length (tasks p)"
    by (simp add: modifyTask_object_def Plan_object_def split: option.splits)
  have id: "(object_tasks ?obj ! nat i) ''id'' = Some (JStr (task_id (tasks p ! nat i)))"
    using i rng
    by (simp add: modifyTask_object_def Plan_object_def Task_object_keys spread_task_id
          split: option.splits)
  have others: "object_tasks ?obj ! j = Task_object (tasks p ! j)"
    if "j < length (tasks p)" "j \<noteq> nat i" for j
    using that rng
    by (simp add: modifyTask_object_def Plan_object_def split: option.splits)
  have merge: "(object_tasks ?obj ! nat i) k =
           (case map_of (own_props modifiedTask) k of
              Some v \<Rightarrow> Some v
            | None \<Rightarrow> Task_object (tasks p ! nat i) k)"
    if "JSON_parse h ?text = Some modifiedTask" "k \<noteq> ''id''" for modifiedTask k
    using that i rng unfolding Task_object_def
    by (simp add: modifyTask_object_def Plan_object_def spread_task_other)
  have rejected: "?obj = Plan_object p" if "JSON_parse h ?text = None"
    using that by (simp add: modifyTask_object_def)
  have typed: "map task_id (tasks p') = map task_id (tasks p)
         \<and> (\<forall>j < length (tasks p). j \<noteq> nat i \<longrightarrow> tasks p' ! j = tasks p ! j)"
    if run: "modifyTask h p i response = Returns p'" for p'
  proof (cases "JSON_parse h ?text")
    case None
    with run rng show ?thesis by (auto simp: modifyTask_def)
  next
    case (Some modifiedTask)
    with run rng obtain task where
      task: "read_Task (spread_task (tasks p ! nat i) modifiedTask) = Some task"
      and p': "p' = p\<lparr>tasks := (tasks p)[nat i := task], updated := now h\<rparr>"
      by (auto simp: modifyTask_def split: option.splits)
    have "task_id task = task_id (tasks p ! nat i)"
      using read_Task_id[OF task spread_task_id] .
    then have "map task_id ((tasks p)[nat i := task]) = map task_id (tasks p)"
      by (metis list_update_id map_update)
    then show ?thesis by (simp add: p')
  qed
  show ?thesis
    apply (intro conjI allI impI)
    subgoal by (rule len)
    subgoal by (rule id)
    subgoal using others by blast
    subgoal using merge by blast
    subgoal using rejected by blast
    subgoal by (rule modifyTask_reads_object)
    subgoal using typed by blast
    subgoal using typed by blast
    done
qed

theorem modifyTask_preserves_id_witness:
  "(0::int) \<le> 1 \<and> (1::int) < int (length (tasks (planAB Pending)))
   \<and> modifyTask host0 (planAB Pending) 1 answer_with_id
     = Returns ((planAB Pending)
         \<lparr>tasks := [node ''A'' [] Pending,
                    (node ''B'' [''A''] Pending)\<lparr>task_title := ''Build faster''\<rparr>],
          updated := Date ''2024-05-01T10:00:00.000Z''\<rparr>)
   \<and> (object_tasks (modifyTask_object host0 (planAB Pending) 1 answer_with_id) ! 1) ''id''
       = Some (JStr ''B'')
   \<and> (object_tasks (modifyTask_object host0 (planAB Pending) 1 answer_urgent) ! 1) ''id''
       = Some (JStr ''B'')
   \<and> (object_tasks (modifyTask_object host0 (planAB Pending) 1 answer_urgent) ! 1) ''priority''
       = Some (JStr ''urgent'')
   \<and> (object_tasks (modifyTask_object host0 (planAB Pending) 1 answer_urgent) ! 1) ''title''
       = Some (JStr ''Task B'')
   \<and> modifyTask host0 (planAB Pending) 1 answer_urgent = Untyped"
proof -
  have len: "(0::int) \<le> 1" "(1::int) < int (length (tasks (planAB Pending)))"
    by (simp_all add: planAB_def plan_of_def)
  have run: "modifyTask host0 (planAB Pending) 1 answer_with_id
     = Returns ((planAB Pending)
         \<lparr>tasks := [node ''A'' [] Pending,
                    (node ''B'' [''A''] Pending)\<lparr>task_title := ''Build faster''\<rparr>],
          updated := Date ''2024-05-01T10:00:00.000Z''\<rparr>)"
    by code_simp
  have urgent:
    "(object_tasks (modifyTask_object host0 (planAB Pending) 1 answer_urgent) ! 1) ''priority''
       = Some (JStr ''urgent'')"
    "(object_tasks (modifyTask_object host0 (planAB Pending) 1 answer_urgent) ! 1) ''title''
       = Some (JStr ''Task B'')"
    "modifyTask host0 (planAB Pending) 1 answer_urgent = Untyped"
    by code_simp+
  have ids: "task_id (tasks (planAB Pending) ! 1) = ''B''"
    by (simp add: planAB_def plan_of_def node_def)
  from modifyTask_preserves_id[OF len, of host0 answer_with_id]
    modifyTask_preserves_id[OF len, of host0 answer_urgent] len run urgent ids
  show ?thesis by simp
qed
section \<open>Building a plan from the model's answer\<close>

lemma processTask_pending:
  assumes "processTask h index taskData = Returns t"
  shows "task_status t = Pending \<and> code t = None"
proof -
  obtain a b c d e f where opts:
    "string_or (get_prop taskData ''title'') (''Task '' @ decimal (int index + 1)) = a"
    "string_or (get_prop taskData ''description'') ''No description provided'' = b"
    "string_or (get_prop taskData ''estimatedTime'') ''30 minutes'' = c"
    "string_or (get_prop taskData ''id'') (generateId h (Suc index) ''task'') = d"
    "array_or_empty (get_prop taskData ''files'') = e"
    "array_or_empty (get_prop taskData ''dependencies'') = f"
    by blast
  show ?thesis
    using assms unfolding processTask_def opts
    by (cases a; cases b; cases c; cases d; cases e; cases f) (auto split: if_splits)
qed

lemma processTasks_from_pending:
  "processTasks_from h index xs = Returns ts \<Longrightarrow>
     \<forall>t \<in> set ts. task_status t = Pending \<and> code t = None"
proof (induction xs arbitrary: index ts)
  case Nil
  then show ?case by simp
next
  case (Cons x xs)
  from Cons.prems obtain t ts' where t: "processTask h index x = Returns t"
    and r: "processTasks_from h (Suc index) xs = Returns ts'" and ts: "ts = t # ts'"
    by (auto split: outcome.splits)
  from processTask_pending[OF t] Cons.IH[OF r] ts show ?case by simp
qed

lemma string_or_or_else:
  "string_or v d = (case or_else v (JStr d) of JStr s \<Rightarrow> Some s | _ \<Rightarrow> None)"
  by (cases v; cases "the v") (auto simp: string_or_def or_else_def)

lemma array_or_empty_none: "array_or_empty v = strings_of (array_or_none v)"
  by (cases v; cases "the v") (auto simp: array_or_empty_def array_or_none_def strings_of_def)

lemma processTask_reads_any:
  "processTask h index taskData =
     (case processTask_any h index taskData of
        Inl e \<Rightarrow> Throws e
      | Inr b \<Rightarrow> (case typed_task b of Some t \<Rightarrow> Returns t | None \<Rightarrow> Untyped))"
proof -
  obtain a b c d where vals:
    "or_else (get_prop taskData ''title'') (JStr (''Task '' @ decimal (int index + 1))) = a"
    "or_else (get_prop taskData ''description'') (JStr ''No description provided'') = b"
    "or_else (get_prop taskData ''estimatedTime'') (JStr ''30 minutes'') = c"
    "or_else (get_prop taskData ''id'') (JStr (generateId h (Suc index) ''task'')) = d"
    by blast
  show ?thesis
    unfolding processTask_def processTask_any_def string_or_or_else array_or_empty_none vals
      typed_task_def
    by (cases a; cases b; cases c; cases d)
       (simp_all split: option.splits)
qed

lemma processTasks_from_reads_any:
  "processTasks_from h index xs =
     (case processTasks_from_any h index xs of
        Inl e \<Rightarrow> Throws e
      | Inr bs \<Rightarrow> (case typed_tasks bs of Some ts \<Rightarrow> Returns ts | None \<Rightarrow> Untyped))"
proof (induction xs arbitrary: index)
  case Nil
  then show ?case by simp
next
  case (Cons x xs)
  show ?case
    unfolding processTasks_from.simps processTasks_from_any.simps
      processTask_reads_any[of h index x] Cons.IH[of "Suc index"]
    by (simp split: sum.splits option.splits)
qed

lemma processTasks_reads_any:
  "processTasks h v =
     (case processTasks_any h v of
        Inl e \<Rightarrow> Throws e
      | Inr bs \<Rightarrow> (case typed_tasks bs of Some ts \<Rightarrow> Returns ts | None \<Rightarrow> Untyped))"
  by (cases v) (simp_all add: processTasks_def processTasks_any_def processTasks_from_reads_any)

lemma processTasks_from_any_length:
  "processTasks_from_any h index xs = Inr ts \<Longrightarrow> length ts = length xs"
proof (induction xs arbitrary: index ts)
  case Nil
  then show ?case by simp
next
  case (Cons x xs)
  from Cons.prems obtain t ts' where "processTasks_from_any h (Suc index) xs = Inr ts'"
    "ts = t # ts'"
    by (auto split: sum.splits)
  with Cons.IH[of "Suc index" ts'] show ?case by simp
qed

lemma processTasks_any_Inr:
  assumes "processTasks_any h v = Inr ts"
  shows "\<exists>xs. v = JArr xs \<and> length ts = length xs"
  using assms by (cases v) (auto simp: processTasks_any_def dest: processTasks_from_any_length)

lemma deps_loop_any_total:
  assumes hc: "\<And>d (st::walk). d \<in> set ds \<Longrightarrow> card (U - seen st) < n \<Longrightarrow>
                 \<exists>r. hc d st = Some r \<and> (\<forall>b st'. r = Inr (b, st') \<longrightarrow> seen st \<subseteq> seen st')"
    and fin: "finite U"
    and fuel: "card (U - seen (st::walk)) < n"
  shows "\<exists>r. deps_loop_any hc x ds st = Some r
             \<and> (\<forall>b st'. r = Inr (b, st') \<longrightarrow> seen st \<subseteq> seen st')"
  using hc fuel
proof (induction ds arbitrary: st)
  case Nil
  then show ?case by auto
next
  case (Cons d ds)
  from Cons.prems(1)[of d st] Cons.prems(2)
  obtain r where r: "hc d st = Some r"
    and sub: "\<forall>b st'. r = Inr (b, st') \<longrightarrow> seen st \<subseteq> seen st'"
    by auto
  show ?case
  proof (cases r)
    case (Inl e)
    with r show ?thesis by simp
  next
    case (Inr res)
    obtain b st1 where res: "res = (b, st1)" by (cases res)
    with Inr sub have s1: "seen st \<subseteq> seen st1" by simp
    show ?thesis
    proof (cases b)
      case True
      with r Inr res s1 show ?thesis by auto
    next
      case False
      have "card (U - seen st1) < n"
        using card_diff_mono[OF fin s1] Cons.prems(2) by simp
      with Cons.IH[of st1] Cons.prems(1)
      obtain r' where r': "deps_loop_any hc x ds st1 = Some r'"
        "\<forall>b st'. r' = Inr (b, st') \<longrightarrow> seen st1 \<subseteq> seen st'"
        by auto
      with r Inr res False s1 show ?thesis by auto
    qed
  qed
qed

lemma hasCycle_any_total:
  assumes "card (set (idents g) - seen st) < n" "fst x \<in> set (idents g)"
  shows "\<exists>r. hasCycle_any n g x st = Some r
             \<and> (\<forall>b st'. r = Inr (b, st') \<longrightarrow> seen st \<subseteq> seen st')"
  using assms
proof (induction n arbitrary: x st)
  case 0
  then show ?case by simp
next
  case (Suc n)
  let ?U = "set (idents g)"
  show ?case
  proof (cases "fst x \<in> onStack st \<or> fst x \<in> seen st")
    case True
    then show ?thesis by auto
  next
    case False
    define st1 where "st1 = st\<lparr>seen := insert (fst x) (seen st),
                      onStack := insert (fst x) (onStack st)\<rparr>"
    have c1: "card (?U - seen st1) < n"
      using card_diff_insert_less[of ?U "fst x" "seen st"] Suc.prems False
      by (simp add: st1_def)
    show ?thesis
    proof (cases "find (\<lambda>task. fst (fst task) = fst x) g")
      case None
      with False show ?thesis by (auto simp: Let_def)
    next
      case (Some task)
      then have "task \<in> set g" by (auto dest: find_in)
      then have dsub: "fst ` set (snd task) \<subseteq> ?U" by (auto simp: idents_def)
      have "\<exists>r. deps_loop_any (hasCycle_any n g) x (snd task) st1 = Some r
               \<and> (\<forall>b st'. r = Inr (b, st') \<longrightarrow> seen st1 \<subseteq> seen st')"
      proof (rule deps_loop_any_total[where U = ?U and n = n])
        fix d and st :: walk
        assume "d \<in> set (snd task)" "card (?U - seen st) < n"
        with dsub Suc.IH[of st d]
        show "\<exists>r. hasCycle_any n g d st = Some r
                 \<and> (\<forall>b st'. r = Inr (b, st') \<longrightarrow> seen st \<subseteq> seen st')"
          by auto
      qed (use c1 in auto)
      then obtain r where
        r: "deps_loop_any (hasCycle_any n g) x (snd task) st1 = Some r"
        and sub: "\<forall>b st'. r = Inr (b, st') \<longrightarrow> seen st1 \<subseteq> seen st'" by auto
      show ?thesis
      proof (cases r)
        case (Inl e)
        with r Some False show ?thesis by (simp add: Let_def st1_def)
      next
        case (Inr res)
        obtain b st2 where res: "res = (b, st2)" by (cases res)
        with Inr sub have "seen st \<subseteq> seen st2" by (auto simp: st1_def)
        with r Inr res Some False show ?thesis
          by (cases b) (auto simp: Let_def st1_def)
      qed
    qed
  qed
qed

lemma detect_roots_any_total:
  assumes "card (set (idents g) - seen st) < n" "set rs \<subseteq> set g"
  shows "\<exists>r. detect_roots_any n g rs st = Some r"
  using assms
proof (induction rs arbitrary: st)
  case Nil
  then show ?case by simp
next
  case (Cons t rs)
  show ?case
  proof (cases "fst (fst t) \<in> seen st")
    case True
    with Cons show ?thesis by simp
  next
    case False
    have "fst (fst t) \<in> set (idents g)" using Cons.prems(2) by (auto simp: idents_def)
    from hasCycle_any_total[OF Cons.prems(1) this]
    obtain r where r: "hasCycle_any n g (fst t) st = Some r"
      and sub: "\<forall>b st'. r = Inr (b, st') \<longrightarrow> seen st \<subseteq> seen st'" by auto
    show ?thesis
    proof (cases r)
      case (Inl e)
      with r False show ?thesis by simp
    next
      case (Inr res)
      obtain b st1 where res: "res = (b, st1)" by (cases res)
      with Inr sub have s1: "seen st \<subseteq> seen st1" by simp
      have "card (set (idents g) - seen st1) < n"
        using card_diff_mono[OF _ s1, of "set (idents g)"] Cons.prems(1) by simp
      with Cons.IH[of st1] Cons.prems(2) obtain r' where
        "detect_roots_any n g rs st1 = Some r'" by auto
      with r Inr res False show ?thesis by simp
    qed
  qed
qed

lemma validatePlan_any_total: "\<exists>r. validatePlan_any ts = Some r"
proof -
  let ?g = "placed_tasks ts"
  have "card (set (idents ?g) - {}) < Suc (length (idents ?g))"
    using card_length[of "idents ?g"] by simp
  then have "\<exists>r. detect_roots_any (Suc (length (idents ?g))) ?g ?g
          \<lparr>seen = {}, onStack = {}, reports = 0\<rparr> = Some r"
    by (intro detect_roots_any_total) auto
  then obtain r where "detect_roots_any (Suc (length (idents ?g))) ?g ?g
          \<lparr>seen = {}, onStack = {}, reports = 0\<rparr> = Some r" by blast
  then show ?thesis
    by (cases r; cases "findInvalidDependencies_any ts")
       (simp_all add: validatePlan_any_def detectCircularDependencies_any_def)
qed

lemma validatePlan_any_Nil: "validatePlan_any [] = Some (Inr ())"
  by (simp add: validatePlan_any_def detectCircularDependencies_any_def
        findInvalidDependencies_any_def placed_tasks_def)

lemma fallback_one_task:
  "length (built_tasks (built (createFallbackPlan h requirements))) = 1"
  by (simp add: built_def createFallbackPlan_def)

text \<open>
  C2, as the code has it. For every host, every answer of the model and every
  requirement text, building a plan returns a plan and throws nothing. When the JSON
  taken from the answer is falsy (\<^verbatim>\<open>null\<close>, which is also what an answer that does not
  parse gives), the plan is the fallback plan with its one task; \<^verbatim>\<open>createPlan\<close> returns
  the fallback plan on the empty answer. The plan returned has no task at all exactly
  when that JSON is a truthy value whose \<^verbatim>\<open>tasks\<close> is missing, falsy or the empty array
  (the empty object, or a value that is no object, such as a number); otherwise it is
  the fallback plan or has one task for each entry of \<^verbatim>\<open>tasks\<close>.
\<close>

theorem parsePlanResponse_never_throws:
  "\<exists>p. parsePlanResponse h planResponse requirements = Some (Inr p)
       \<and> (\<not> truthy (extractJsonFromResponse h planResponse)
            \<longrightarrow> p = built (createFallbackPlan h requirements))
       \<and> (built_tasks p = [] \<longleftrightarrow>
            truthy (extractJsonFromResponse h planResponse)
            \<and> or_else (get_prop (extractJsonFromResponse h planResponse) ''tasks'') (JArr [])
                = JArr [])
       \<and> (p = built (createFallbackPlan h requirements)
            \<or> (\<exists>xs. or_else (get_prop (extractJsonFromResponse h planResponse) ''tasks'')
                       (JArr []) = JArr xs
                     \<and> length (built_tasks p) = length xs))
       \<and> createPlan h planResponse requirements =
           Some (Inr (if planResponse = [] then built (createFallbackPlan h requirements)
                      else p))"
proof -
  let ?planData = "extractJsonFromResponse h planResponse"
  let ?tasksData = "or_else (get_prop ?planData ''tasks'') (JArr [])"
  let ?fallback = "built (createFallbackPlan h requirements)"
  have run: "\<exists>p. parsePlanResponse h planResponse requirements = Some (Inr p)
       \<and> (\<not> truthy ?planData \<longrightarrow> p = ?fallback)
       \<and> (built_tasks p = [] \<longleftrightarrow> truthy ?planData \<and> ?tasksData = JArr [])
       \<and> (p = ?fallback \<or> (\<exists>xs. ?tasksData = JArr xs \<and> length (built_tasks p) = length xs))"
  proof (cases "truthy ?planData")
    case False
    then have "parsePlanResponse h planResponse requirements = Some (Inr ?fallback)"
      by (simp add: parsePlanResponse_def Let_def)
    moreover have "built_tasks ?fallback \<noteq> []"
      using fallback_one_task[of h requirements] by auto
    ultimately show ?thesis using False by simp
  next
    case True
    show ?thesis
    proof (cases "processTasks_any h ?tasksData")
      case (Inl e)
      with True have "parsePlanResponse h planResponse requirements = Some (Inr ?fallback)"
        by (simp add: parsePlanResponse_def Let_def)
      moreover have "built_tasks ?fallback \<noteq> []"
        using fallback_one_task[of h requirements] by auto
      moreover have "?tasksData \<noteq> JArr []" using Inl by (auto simp: processTasks_any_def)
      ultimately show ?thesis by simp
    next
      case (Inr ts)
      from processTasks_any_Inr[OF Inr] obtain xs where
        xs: "?tasksData = JArr xs" "length ts = length xs" by blast
      obtain v where v: "validatePlan_any ts = Some v"
        using validatePlan_any_total by blast
      show ?thesis
      proof (cases v)
        case (Inl e)
        with v True Inr
        have "parsePlanResponse h planResponse requirements = Some (Inr ?fallback)"
          by (simp add: parsePlanResponse_def Let_def)
        moreover have "built_tasks ?fallback \<noteq> []"
          using fallback_one_task[of h requirements] by auto
        moreover have "ts \<noteq> []" using v Inl by (auto simp: validatePlan_any_Nil)
        with xs have "?tasksData \<noteq> JArr []" by auto
        ultimately show ?thesis by simp
      next
        case (Inr ok)
        with v True \<open>processTasks_any h ?tasksData = Inr ts\<close> obtain p where
          p: "parsePlanResponse h planResponse requirements = Some (Inr p)"
          "built_tasks p = ts"
          by (simp add: parsePlanResponse_def Let_def)
        with xs True show ?thesis by auto
      qed
    qed
  qed
  then obtain p where p: "parsePlanResponse h planResponse requirements = Some (Inr p)"
    and rest: "\<not> truthy ?planData \<longrightarrow> p = ?fallback"
      "built_tasks p = [] \<longleftrightarrow> truthy ?planData \<and> ?tasksData = JArr []"
      "p = ?fallback \<or> (\<exists>xs. ?tasksData = JArr xs \<and> length (built_tasks p) = length xs)"
    by blast
  have "createPlan h planResponse requirements =
           Some (Inr (if planResponse = [] then ?fallback else p))"
    using p by (simp add: createPlan_def)
  with p rest show ?thesis by blast
qed

theorem parsePlanResponse_never_throws_witness:
  "parsePlanResponse host0 [] ''Build a todo app''
     = Some (Inr (built (createFallbackPlan host0 ''Build a todo app'')))
   \<and> length (built_tasks (built (createFallbackPlan host0 ''Build a todo app''))) = 1
   \<and> \<not> truthy (extractJsonFromResponse host0 [])
   \<and> parsePlanResponse host0 answer_numeric_id ''Build a todo app''
     = Some (Inr \<lparr>built_plan_id = ''plan-1714557600000-k3j9x0q2a'',
                  built_plan_title = JStr ''Generated Implementation Plan'',
                  built_plan_description = JStr ''Build a todo app'',
                  built_tasks =
                    [\<lparr>built_id = JNum 1 0, built_title = ''Set up'',
                      built_description = ''No description provided'', built_files = [],
                      built_dependencies = [], built_status = Pending,
                      built_estimatedTime = ''30 minutes'', built_priority = Medium\<rparr>],
                  built_created = Date ''2024-05-01T10:00:00.000Z'',
                  built_updated = Date ''2024-05-01T10:00:00.000Z'',
                  built_plan_status = Draft\<rparr>)
   \<and> parsePlanResponse host0 answer_no_text ''Build a todo app''
     = Some (Inr (built (createFallbackPlan host0 ''Build a todo app'')))"
proof -
  have run: "parsePlanResponse host0 [] ''Build a todo app''
     = Some (Inr (built (createFallbackPlan host0 ''Build a todo app'')))"
    by code_simp
  have falsy: "\<not> truthy (extractJsonFromResponse host0 [])"
    by code_simp
  have numeric: "parsePlanResponse host0 answer_numeric_id ''Build a todo app''
     = Some (Inr \<lparr>built_plan_id = ''plan-1714557600000-k3j9x0q2a'',
                  built_plan_title = JStr ''Generated Implementation Plan'',
                  built_plan_description = JStr ''Build a todo app'',
                  built_tasks =
                    [\<lparr>built_id = JNum 1 0, built_title = ''Set up'',
                      built_description = ''No description provided'', built_files = [],
                      built_dependencies = [], built_status = Pending,
                      built_estimatedTime = ''30 minutes'', built_priority = Medium\<rparr>],
                  built_created = Date ''2024-05-01T10:00:00.000Z'',
                  built_updated = Date ''2024-05-01T10:00:00.000Z'',
                  built_plan_status = Draft\<rparr>)"
    by code_simp
  have no_text: "parsePlanResponse host0 answer_no_text ''Build a todo app''
     = Some (Inr (built (createFallbackPlan host0 ''Build a todo app'')))"
    by code_simp
  from parsePlanResponse_never_throws[of host0 "[]" "''Build a todo app''"]
    run falsy numeric no_text
  show ?thesis by (simp add: fallback_one_task)
qed

theorem parsePlanResponse_empty_object_no_tasks:
  "parsePlanResponse host0 ''{}'' ''Build a todo app''
     = Some (Inr \<lparr>built_plan_id = ''plan-1714557600000-k3j9x0q2a'',
                  built_plan_title = JStr ''Generated Implementation Plan'',
                  built_plan_description = JStr ''Build a todo app'', built_tasks = [],
                  built_created = Date ''2024-05-01T10:00:00.000Z'',
                  built_updated = Date ''2024-05-01T10:00:00.000Z'',
                  built_plan_status = Draft\<rparr>)
   \<and> parsePlanResponse host0 ''5'' ''Build a todo app''
     = Some (Inr \<lparr>built_plan_id = ''plan-1714557600000-k3j9x0q2a'',
                  built_plan_title = JStr ''Generated Implementation Plan'',
                  built_plan_description = JStr ''Build a todo app'', built_tasks = [],
                  built_created = Date ''2024-05-01T10:00:00.000Z'',
                  built_updated = Date ''2024-05-01T10:00:00.000Z'',
                  built_plan_status = Draft\<rparr>)"
  by code_simp

section \<open>Export and import\<close>

lemma importPlan_tasks_pending:
  assumes "importPlan h planJson = Returns p"
  shows "\<forall>t \<in> set (tasks p). task_status t = Pending \<and> code t = None"
proof -
  from assms obtain planData ts where
    "processTasks h (or_else (get_prop planData ''tasks'') (JArr [])) = Returns ts"
    "tasks p = ts"
    by (auto simp: importPlan_def split: option.splits if_splits outcome.splits prod.splits)
  then show ?thesis
    by (cases "or_else (get_prop planData ''tasks'') (JArr [])")
       (auto simp: processTasks_def dest: processTasks_from_pending)
qed

text \<open>
  C1, at a plan whose first task is completed: exported and imported again on the
  example host, the plan comes back with its ids, dependencies, dates of creation and
  plan status, and with the status of that task set back to \<^verbatim>\<open>pending\<close> (by
  \<open>importPlan_tasks_pending\<close> every task of every imported plan is pending).
\<close>

theorem importPlan_export_resets_status:
  "map task_status (tasks (planAB Completed)) = [Completed, Pending]
   \<and> importPlan host0 (exportPlan (planAB Completed))
       = Returns ((planAB Pending)\<lparr>updated := Date ''2024-05-01T10:00:00.000Z''\<rparr>)"
  by code_simp

text \<open>
  C9. For every host and every text its \<^verbatim>\<open>JSON.parse\<close> rejects, \<^verbatim>\<open>importPlan\<close> throws
  \<^verbatim>\<open>Error("Failed to import plan")\<close> to its caller; it returns no plan, fallback or
  other.
\<close>

theorem importPlan_invalid_json_throws:
  assumes "JSON_parse h planJson = None"
  shows "importPlan h planJson = Throws (Error ''Failed to import plan'')
         \<and> (\<forall>p. importPlan h planJson \<noteq> Returns p)"
  using assms by (simp add: importPlan_def)

theorem importPlan_invalid_json_throws_witness:
  "JSON_parse host0 ''{not json'' = None
   \<and> importPlan host0 ''{not json'' = Throws (Error ''Failed to import plan'')"
proof -
  have rejected: "JSON_parse host0 ''{not json'' = None" by code_simp
  from importPlan_invalid_json_throws[OF rejected] rejected show ?thesis by simp
qed

section \<open>The two traversals on acyclic and on cyclic task lists\<close>

text \<open>
  C3, as the code has it. For every task list whose dependency graph is acyclic,
  \<^verbatim>\<open>detectCircularDependencies\<close> returns the empty list, and \<^verbatim>\<open>topologicalSort\<close> returns
  a list with no id twice that holds, for every id of the input, the last task with
  that id, every task standing strictly after each task its \<^verbatim>\<open>dependencies\<close> refer to.
  When the ids of the input are distinct, that list is a permutation of the input.
\<close>

theorem acyclic_detect_empty_and_sort_ordered:
  assumes "acyclic (dep_edges ts)"
  shows "detectCircularDependencies ts = Some []
         \<and> (\<exists>r. topologicalSort ts = Some r
                \<and> distinct (map task_id r)
                \<and> set r = {ts ! i | i. i < length ts
                     \<and> (\<forall>j < length ts. i < j \<longrightarrow> task_id (ts ! j) \<noteq> task_id (ts ! i))}
                \<and> (distinct (map task_id ts) \<longrightarrow> mset r = mset ts)
                \<and> (\<forall>i j. i < length r \<and> j < length r \<and>
                       task_id (r ! j) \<in> set (dependencies (r ! i)) \<longrightarrow> j < i))"
proof -
  from topologicalSort_last[of ts] obtain r where r: "topologicalSort ts = Some r"
    and d: "distinct (map task_id r)"
    and l: "set r = {ts ! i | i. i < length ts
                     \<and> (\<forall>j < length ts. i < j \<longrightarrow> task_id (ts ! j) \<noteq> task_id (ts ! i))}"
    by blast
  have p: "distinct (map task_id ts) \<longrightarrow> mset r = mset ts"
    using topologicalSort_perm[OF _ r] by simp
  from detect_acyclic[OF assms] r d l p topologicalSort_order[OF assms r]
  show ?thesis by simp
qed

theorem acyclic_detect_empty_and_sort_ordered_witness:
  "distinct (map task_id (rev (tasks (planAB Pending))))
   \<and> acyclic (dep_edges (rev (tasks (planAB Pending))))
   \<and> detectCircularDependencies (rev (tasks (planAB Pending))) = Some []
   \<and> topologicalSort (rev (tasks (planAB Pending))) = Some (tasks (planAB Pending))"
proof -
  let ?ts = "rev (tasks (planAB Pending))"
  have d: "distinct (map task_id ?ts)"
    by (simp add: planAB_def plan_of_def node_def)
  have "acyclic ({} :: (string \<times> string) set)"
    by (simp add: acyclic_def)
  moreover have "dep_edges ?ts = {(''B'', ''A'')}"
    by (simp add: dep_edges_def planAB_def plan_of_def node_def)
  ultimately have a: "acyclic (dep_edges ?ts)"
    by simp
  have s: "topologicalSort ?ts = Some (tasks (planAB Pending))"
    by code_simp
  from acyclic_detect_empty_and_sort_ordered[OF a] d a s show ?thesis by simp
qed

theorem repeated_id_sorted_once:
  "dep_edges twiceA = {}
   \<and> detectCircularDependencies twiceA = Some []
   \<and> length twiceA = 2
   \<and> topologicalSort twiceA = Some [node ''A'' [] Completed]"
proof -
  have "dep_edges twiceA = {}" by (simp add: dep_edges_def twiceA_def node_def)
  moreover have "detectCircularDependencies twiceA = Some []" by code_simp
  moreover have "topologicalSort twiceA = Some [node ''A'' [] Completed]" by code_simp
  ultimately show ?thesis by (simp add: twiceA_def)
qed




end
